theory Spec2Isabelle
  imports Main "HOL-Library.Word"
begin

section \<open>The vector-clock changes feed of sync\_gateway\<close>

text \<open>
  A shallow embedding of \<^verbatim>\<open>VectorMultiChangesFeed\<close>, \<^verbatim>\<open>vectorChangesFeed\<close>,
  \<^verbatim>\<open>appendVectorUserFeed\<close> and \<^verbatim>\<open>getChangesClock\<close> (package \<^verbatim>\<open>db\<close>).
  Go pointers to sequence clocks are addresses into an explicit store, because the
  code shares one triggered-by clock between all entries of a backfill and compares
  \<^verbatim>\<open>SequenceID\<close> structs with \<^verbatim>\<open>==\<close>, which compares those pointers.
  A Go channel is the list of the values sent on it before it is closed.
\<close>

subsection \<open>Sequence clocks and the store\<close>

type_synonym vbno = "16 word"
type_synonym seqno = "64 word"

text \<open>
  Modelled from the spec: the interface \<^verbatim>\<open>base.SequenceClock\<close> and its implementation
  \<^verbatim>\<open>base.SequenceClockImpl\<close> are not among the sources. The spec gives a mapping from
  vbucket number to sequence (absent = 0) with \<^verbatim>\<open>get\<close>, \<^verbatim>\<open>setMax\<close> (monotonic-maximum
  update), \<^verbatim>\<open>copy\<close>, and an opaque hashed-value slot filled by the hasher.
\<close>

record SequenceClock =
  clockValue :: "vbno \<Rightarrow> seqno"
  hashedValue :: string

definition NewSequenceClockImpl :: SequenceClock where
  "NewSequenceClockImpl = \<lparr>clockValue = (\<lambda>_. 0), hashedValue = ''''\<rparr>"

definition GetSequence :: "SequenceClock \<Rightarrow> vbno \<Rightarrow> seqno" where
  "GetSequence c vb = clockValue c vb"

definition SetMaxSequence :: "SequenceClock \<Rightarrow> vbno \<Rightarrow> seqno \<Rightarrow> SequenceClock" where
  "SetMaxSequence c vb s = c\<lparr>clockValue := (clockValue c)(vb := max (clockValue c vb) s)\<rparr>"

definition GetHashedValue :: "SequenceClock \<Rightarrow> string" where
  "GetHashedValue c = hashedValue c"

definition SetHashedValue :: "SequenceClock \<Rightarrow> string \<Rightarrow> SequenceClock" where
  "SetHashedValue c v = c\<lparr>hashedValue := v\<rparr>"

definition Copy :: "SequenceClock \<Rightarrow> SequenceClock" where
  "Copy c = c"

text \<open>
  The store of clocks: \<open>cells\<close> maps an address to the clock stored there, and every
  address below \<open>nextRef\<close> is allocated. A pointer is \<open>Some\<close> address, \<^verbatim>\<open>nil\<close> is \<open>None\<close>.
\<close>

type_synonym ref = nat

record heap =
  cells :: "ref \<Rightarrow> SequenceClock"
  nextRef :: ref

definition alloc :: "heap \<Rightarrow> SequenceClock \<Rightarrow> ref \<times> heap" where
  "alloc h c = (nextRef h, \<lparr>cells = (cells h)(nextRef h := c), nextRef = Suc (nextRef h)\<rparr>)"

definition update :: "heap \<Rightarrow> ref \<Rightarrow> SequenceClock \<Rightarrow> heap" where
  "update h r c = h\<lparr>cells := (cells h)(r := c)\<rparr>"

subsection \<open>Sequence identifiers, entries and options\<close>

text \<open>
  Modelled from the spec: the declarations of \<^verbatim>\<open>SequenceID\<close>, \<^verbatim>\<open>ChangeEntry\<close>,
  \<^verbatim>\<open>LogEntry\<close>, \<^verbatim>\<open>ChangesOptions\<close> and \<^verbatim>\<open>channels.VbSequence\<close> are not among the
  sources; the records carry the fields that the code reads and writes. A field that a
  composite literal of the code leaves out has Go's zero value (\<open>Undefined\<close>, 0, \<open>None\<close>).
\<close>

datatype SequenceType = Undefined | ClockSequenceType | IntSequenceType

record SequenceID =
  SeqType :: SequenceType
  Seq :: seqno
  vbNo :: vbno
  Clock :: "ref option"
  TriggeredBy :: seqno
  TriggeredByVbNo :: vbno
  TriggeredByClock :: "ref option"

record ChangeEntry =
  Seq_ce :: SequenceID
  ID :: string
  Changes :: "string list"
  Removed :: "string set option"
  Doc :: string
  Err :: string

record LogEntry =
  DocID :: string
  Sequence :: seqno
  VbNo :: vbno
  RevID :: string
  Removed_le :: bool

record VbSequence =
  VbNo_vs :: "vbno option"
  Sequence_vs :: seqno

record ChangesOptions =
  Since :: SequenceID
  Limit :: nat
  Conflicts :: bool
  IncludeDocs :: bool
  Wait :: bool
  Continuous :: bool

datatype error = NilDereference | CacheError string | UserNotFound

text \<open>
  Modelled from the spec: \<^verbatim>\<open>makeChangeEntry\<close> is not among the sources. The entry takes
  its id and revision from the log entry and carries the sequence identifier it is
  given; a log entry that records a removal yields the channel's name as removed set.
\<close>

definition makeChangeEntry :: "LogEntry \<Rightarrow> SequenceID \<Rightarrow> string \<Rightarrow> ChangeEntry" where
  "makeChangeEntry logEntry seqID channelName =
     \<lparr>Seq_ce = seqID, ID = DocID logEntry, Changes = [RevID logEntry],
      Removed = (if Removed_le logEntry then Some {channelName} else None),
      Doc = '''', Err = ''''\<rparr>"

subsection \<open>getChangesClock\<close>

definition getChangesClock :: "SequenceID \<Rightarrow> ref option" where
  "getChangesClock sequence =
     (if TriggeredByClock sequence \<noteq> None then TriggeredByClock sequence
      else Clock sequence)"

subsection \<open>The choice of the per-channel since value\<close>

text \<open>
  The body of the loop over \<^verbatim>\<open>channelsSince\<close> in \<^verbatim>\<open>VectorMultiChangesFeed\<close>, up to the
  call of \<^verbatim>\<open>vectorChangesFeed\<close>: it computes \<^verbatim>\<open>chanOpts.Since\<close>. \<^verbatim>\<open>addedChannels\<close> is a
  \<^verbatim>\<open>base.Set\<close> that may be \<^verbatim>\<open>nil\<close>. A method call on a \<^verbatim>\<open>nil\<close> clock panics.
\<close>

definition vbAddedAt_of :: "vbno \<Rightarrow> VbSequence \<Rightarrow> vbno" where
  "vbAddedAt_of userVbNo vbSeqAddedAt =
     (case VbNo_vs vbSeqAddedAt of None \<Rightarrow> userVbNo | Some v \<Rightarrow> v)"

definition isNewChannel :: "string set option \<Rightarrow> string \<Rightarrow> bool" where
  "isNewChannel addedChannels name =
     (case addedChannels of None \<Rightarrow> False | Some a \<Rightarrow> name \<in> a)"

definition backfillInProgress :: "heap \<Rightarrow> SequenceID \<Rightarrow> vbno \<Rightarrow> seqno \<Rightarrow> bool" where
  "backfillInProgress h since vbAddedAt seqAddedAt =
     (case TriggeredByClock since of
        None \<Rightarrow> False
      | Some t \<Rightarrow> GetSequence (cells h t) vbAddedAt = seqAddedAt)"

definition chanOptsSince ::
  "heap \<Rightarrow> SequenceID \<Rightarrow> vbno \<Rightarrow> string set option \<Rightarrow> string \<Rightarrow> VbSequence
     \<Rightarrow> error + (SequenceID \<times> heap)" where
  "chanOptsSince h since userVbNo addedChannels name vbSeqAddedAt =
     (let seqAddedAt = Sequence_vs vbSeqAddedAt;
          vbAddedAt = vbAddedAt_of userVbNo vbSeqAddedAt;
          inProgress = backfillInProgress h since vbAddedAt seqAddedAt
      in case getChangesClock since of
           None \<Rightarrow> Inl NilDereference
         | Some cr \<Rightarrow>
            (let sinceSeq = GetSequence (cells h cr) vbAddedAt;
                 backfillRequired = (Sequence_vs vbSeqAddedAt > 0 \<and> sinceSeq < seqAddedAt)
             in if isNewChannel addedChannels name \<or> (backfillRequired \<and> \<not> inProgress) then
                  (let (c, h1) = alloc h NewSequenceClockImpl;
                       (t, h2) = alloc h1 (Copy (cells h1 cr))
                   in Inr (\<lparr>SeqType = Undefined, Seq = 0, vbNo = 0, Clock = Some c,
                            TriggeredBy = seqAddedAt, TriggeredByVbNo = vbAddedAt,
                            TriggeredByClock = Some t\<rparr>, h2))
                else if inProgress then
                  (let (c, h1) = alloc h NewSequenceClockImpl
                   in Inr (\<lparr>SeqType = Undefined, Seq = Seq since, vbNo = vbNo since,
                            Clock = Some c, TriggeredBy = seqAddedAt,
                            TriggeredByVbNo = vbAddedAt,
                            TriggeredByClock = TriggeredByClock since\<rparr>, h1))
                else Inr (since, h)))"

subsection \<open>The terminator\<close>

text \<open>
  Every guarded send is a \<^verbatim>\<open>select\<close> between \<^verbatim>\<open><-options.Terminator\<close> and the send.
  Which case a \<^verbatim>\<open>select\<close> takes is decided outside the code, so it is an input of the
  model: \<open>Some n\<close> says that the \<^verbatim>\<open>select\<close> takes the terminator case once the sender
  has sent \<open>n\<close> values, \<open>None\<close> that it never does.
\<close>

definition terminatorTaken :: "nat option \<Rightarrow> nat \<Rightarrow> bool" where
  "terminatorTaken term sent = (case term of None \<Rightarrow> False | Some n \<Rightarrow> n \<le> sent)"

subsection \<open>vectorChangesFeed\<close>

text \<open>
  \<^verbatim>\<open>SequenceID.VbucketSequenceBefore\<close> and \<^verbatim>\<open>changeCache.GetChanges\<close> are not among
  the sources; they are parameters (\<open>VSB\<close>, \<open>GetChanges\<close>) of the model.
  The first loop sends the backfill and sets to \<^verbatim>\<open>nil\<close> the log slots of the backfill
  entries; it returns the values sent, whether the terminator case was taken, and the log
  (whose slots are then pointers that may be \<^verbatim>\<open>nil\<close>). The second loop skips the \<^verbatim>\<open>nil\<close> slots.
\<close>

definition isBackfill :: "SequenceClock \<Rightarrow> LogEntry \<Rightarrow> bool" where
  "isBackfill triggeredByClock logEntry =
     (Sequence logEntry \<le> GetSequence triggeredByClock (VbNo logEntry))"

definition backfillSeqID :: "SequenceID \<Rightarrow> LogEntry \<Rightarrow> SequenceID" where
  "backfillSeqID since logEntry =
     \<lparr>SeqType = ClockSequenceType, Seq = Sequence logEntry, vbNo = VbNo logEntry,
      Clock = None, TriggeredBy = TriggeredBy since,
      TriggeredByVbNo = TriggeredByVbNo since,
      TriggeredByClock = TriggeredByClock since\<rparr>"

definition liveSeqID :: "LogEntry \<Rightarrow> SequenceID" where
  "liveSeqID logEntry =
     \<lparr>SeqType = ClockSequenceType, Seq = Sequence logEntry, vbNo = VbNo logEntry,
      Clock = None, TriggeredBy = 0, TriggeredByVbNo = 0, TriggeredByClock = None\<rparr>"

fun sendBackfill ::
  "(SequenceID \<Rightarrow> vbno \<Rightarrow> seqno \<Rightarrow> bool) \<Rightarrow> SequenceClock \<Rightarrow> SequenceID \<Rightarrow> string
     \<Rightarrow> nat option \<Rightarrow> LogEntry list \<Rightarrow> ChangeEntry list
     \<Rightarrow> ChangeEntry list \<times> bool \<times> LogEntry option list" where
  "sendBackfill VSB tbc since channel term [] sent = (sent, False, [])"
| "sendBackfill VSB tbc since channel term (logEntry # log) sent =
     (let isPending = VSB since (VbNo logEntry) (Sequence logEntry) in
      if isBackfill tbc logEntry \<and> isPending \<and> terminatorTaken term (length sent)
      then (sent, True, map Some (logEntry # log))
      else
        (let sent1 = (if isBackfill tbc logEntry \<and> isPending
                      then sent @ [makeChangeEntry logEntry (backfillSeqID since logEntry) channel]
                      else sent);
             (sent', aborted, log') = sendBackfill VSB tbc since channel term log sent1
         in (sent', aborted, (if isBackfill tbc logEntry then None else Some logEntry) # log')))"

fun sendRemaining ::
  "string \<Rightarrow> nat option \<Rightarrow> LogEntry option list \<Rightarrow> ChangeEntry list \<Rightarrow> ChangeEntry list" where
  "sendRemaining channel term [] sent = sent"
| "sendRemaining channel term (None # log) sent = sendRemaining channel term log sent"
| "sendRemaining channel term (Some logEntry # log) sent =
     (if terminatorTaken term (length sent) then sent
      else sendRemaining channel term log
             (sent @ [makeChangeEntry logEntry (liveSeqID logEntry) channel]))"

definition vectorChangesFeed ::
  "(string \<Rightarrow> ChangesOptions \<Rightarrow> error + LogEntry list)
     \<Rightarrow> (SequenceID \<Rightarrow> vbno \<Rightarrow> seqno \<Rightarrow> bool) \<Rightarrow> heap \<Rightarrow> nat option
     \<Rightarrow> string \<Rightarrow> ChangesOptions \<Rightarrow> error + ChangeEntry list" where
  "vectorChangesFeed GetChanges VSB h term channel options =
     (case GetChanges channel options of
        Inl err \<Rightarrow> Inl err
      | Inr log \<Rightarrow>
          if length log = 0 then Inr []
          else
            (case TriggeredByClock (Since options) of
               None \<Rightarrow> Inr (sendRemaining channel term (map Some log) [])
             | Some t \<Rightarrow>
                 (let (sent, aborted, log') =
                        sendBackfill VSB (cells h t) (Since options) channel term log []
                  in if aborted then Inr sent
                     else Inr (sendRemaining channel term log' sent))))"

subsection \<open>appendVectorUserFeed\<close>

text \<open>
  Modelled from the spec: the user object (\<^verbatim>\<open>db.user\<close>) is not among the sources; the
  code reads its name, the id of its document and its sequence. \<^verbatim>\<open>base.GuestUsername\<close> is a parameter.
\<close>

record User =
  Name :: string
  DocID_u :: string
  Sequence_u :: seqno

definition appendVectorUserFeed ::
  "string \<Rightarrow> heap \<Rightarrow> User \<Rightarrow> ChangeEntry list list \<Rightarrow> string list \<Rightarrow> ChangesOptions \<Rightarrow> vbno
     \<Rightarrow> error + (ChangeEntry list list \<times> string list)" where
  "appendVectorUserFeed GuestUsername h user feeds names options userVbNo =
     (if Sequence_u user > 0 then
        (let userSeq = \<lparr>SeqType = ClockSequenceType, Seq = Sequence_u user, vbNo = userVbNo,
                        Clock = None, TriggeredBy = 0, TriggeredByVbNo = 0,
                        TriggeredByClock = None\<rparr>
         in case getChangesClock (Since options) of
              None \<Rightarrow> Inl NilDereference
            | Some cr \<Rightarrow>
               (let sinceSeq = GetSequence (cells h cr) userVbNo in
                if sinceSeq < Seq userSeq then
                  (let name = (if Name user = [] then GuestUsername else Name user);
                       entry = \<lparr>Seq_ce = userSeq, ID = ''_user/'' @ name, Changes = [],
                                Removed = None, Doc = [], Err = []\<rparr>
                   in Inr (feeds @ [[entry]], names @ [ID entry]))
                else Inr (feeds, names)))
      else Inr (feeds, names))"

subsection \<open>The merge loop\<close>

text \<open>
  \<^verbatim>\<open>SequenceID.Before\<close>, \<^verbatim>\<open>MaxSequenceID\<close>, \<^verbatim>\<open>db.SequenceHasher.GetHash\<close> and
  \<^verbatim>\<open>db.addDocToChangeEntry\<close> are not among the sources: \<open>Before\<close>, \<open>MaxSequenceID\<close> and
  \<open>GetHash\<close> are parameters of the model.
  Modelled from the spec: \<^verbatim>\<open>addDocToChangeEntry\<close> asks the document layer to attach
  the body or the conflicting revisions to the entry. The parameter \<open>docLayer\<close> is the
  document layer: it reads the entry and the two options and supplies body and revisions.
\<close>

definition addDocToChangeEntry ::
  "(ChangeEntry \<Rightarrow> bool \<Rightarrow> bool \<Rightarrow> string \<times> string list) \<Rightarrow> ChangeEntry \<Rightarrow> ChangesOptions
     \<Rightarrow> ChangeEntry" where
  "addDocToChangeEntry docLayer entry options =
     entry\<lparr>Doc := fst (docLayer entry (IncludeDocs options) (Conflicts options)),
           Changes := snd (docLayer entry (IncludeDocs options) (Conflicts options))\<rparr>"

text \<open>
  Slot \<open>i\<close> of the merge is the pair of \<^verbatim>\<open>current[i]\<close> and \<^verbatim>\<open>feeds[i]\<close>; the code makes
  the two slices equally long. A feed is \<open>None\<close> once the code has set it to \<^verbatim>\<open>nil\<close>,
  and \<open>Some xs\<close> while the values \<open>xs\<close> are still to be received before the close.
\<close>

type_synonym slot = "ChangeEntry option \<times> ChangeEntry list option"

fun fillCurrent :: "slot \<Rightarrow> slot" where
  "fillCurrent (None, Some []) = (None, None)"
| "fillCurrent (None, Some (entry # rest)) = (Some entry, Some rest)"
| "fillCurrent (cur, feed) = (cur, feed)"

text \<open>
  The scan for the minimum. \<^verbatim>\<open>minEntry\<close> is a pointer; the model keeps the index of the
  slot it was read from beside the entry, since two slots never hold the same pointer.
\<close>

fun findMin ::
  "(SequenceID \<Rightarrow> SequenceID \<Rightarrow> bool) \<Rightarrow> ChangeEntry option list \<Rightarrow> nat \<Rightarrow> SequenceID
     \<Rightarrow> (nat \<times> ChangeEntry) option \<Rightarrow> SequenceID \<times> (nat \<times> ChangeEntry) option" where
  "findMin Before [] i minSeq minEntry = (minSeq, minEntry)"
| "findMin Before (None # rest) i minSeq minEntry = findMin Before rest (Suc i) minSeq minEntry"
| "findMin Before (Some cur # rest) i minSeq minEntry =
     (if Before (Seq_ce cur) minSeq then findMin Before rest (Suc i) (Seq_ce cur) (Some (i, cur))
      else findMin Before rest (Suc i) minSeq minEntry)"

text \<open>
  The loop that clears the entries of the sequence just chosen; \<open>removed\<close> is
  \<^verbatim>\<open>minEntry.Removed\<close>, which the loop updates.
\<close>

definition concatRemoved :: "string set option \<Rightarrow> string set option \<Rightarrow> string set option" where
  "concatRemoved minRemoved curRemoved =
     (case curRemoved of
        None \<Rightarrow> minRemoved
      | Some r \<Rightarrow> (case minRemoved of None \<Rightarrow> Some r | Some m \<Rightarrow> Some (m \<union> r)))"

fun clearCurrent ::
  "SequenceID \<Rightarrow> nat \<Rightarrow> nat \<Rightarrow> slot list \<Rightarrow> string set option
     \<Rightarrow> slot list \<times> string set option" where
  "clearCurrent minSeq minIdx i [] removed = ([], removed)"
| "clearCurrent minSeq minIdx i ((None, feed) # rest) removed =
     (let (rest', removed') = clearCurrent minSeq minIdx (Suc i) rest removed
      in ((None, feed) # rest', removed'))"
| "clearCurrent minSeq minIdx i ((Some cur, feed) # rest) removed =
     (if Seq_ce cur = minSeq then
        (let removed1 = (if i \<noteq> minIdx then concatRemoved removed (Removed cur) else removed);
             (rest', removed') = clearCurrent minSeq minIdx (Suc i) rest removed1
         in ((None, feed) # rest', removed'))
      else
        (let (rest', removed') = clearCurrent minSeq minIdx (Suc i) rest removed
         in ((Some cur, feed) # rest', removed')))"

text \<open>The stamping of the clock hash on the entry that is about to be sent.\<close>

definition stampClock ::
  "(SequenceClock \<Rightarrow> error + string) \<Rightarrow> ref \<Rightarrow> heap \<Rightarrow> ChangeEntry
     \<Rightarrow> error + (ChangeEntry \<times> heap)" where
  "stampClock GetHash cumulativeClock h minEntry =
     (if TriggeredBy (Seq_ce minEntry) = 0 then
        (let h1 = update h cumulativeClock
                    (SetMaxSequence (cells h cumulativeClock)
                       (vbNo (Seq_ce minEntry)) (Seq (Seq_ce minEntry)));
             res = GetHash (cells h1 cumulativeClock);
             (c, h2) = alloc h1 NewSequenceClockImpl;
             h3 = (case res of
                     Inl err \<Rightarrow> h2
                   | Inr clockHash \<Rightarrow> update h2 c (SetHashedValue (cells h2 c) clockHash))
         in Inr (minEntry\<lparr>Seq_ce := (Seq_ce minEntry)\<lparr>Clock := Some c\<rparr>\<rparr>, h3))
      else
        (case TriggeredByClock (Seq_ce minEntry) of
           None \<Rightarrow> Inl NilDereference
         | Some t \<Rightarrow>
             if GetHashedValue (cells h t) = [] then
               (let h1 = update h cumulativeClock
                           (SetMaxSequence (cells h cumulativeClock)
                              (TriggeredByVbNo (Seq_ce minEntry)) (TriggeredBy (Seq_ce minEntry)));
                    res = GetHash (cells h1 cumulativeClock)
                in Inr (minEntry,
                        (case res of
                           Inl err \<Rightarrow> h1
                         | Inr clockHash \<Rightarrow> update h1 t (SetHashedValue (cells h1 t) clockHash))))
             else Inr (minEntry, h)))"

text \<open>
  The state of the merge loop: the slots, the store, the options (the code updates
  \<^verbatim>\<open>options.Limit\<close> and \<^verbatim>\<open>options.Since.Clock\<close>), what has been sent on \<^verbatim>\<open>output\<close>
  (\<open>None\<close> is the \<^verbatim>\<open>nil\<close> that announces a wait) and \<^verbatim>\<open>sentSomething\<close>.
\<close>

record MergeState =
  slots :: "slot list"
  store :: heap
  options :: ChangesOptions
  outputCh :: "ChangeEntry option list"
  sentSomething :: bool

datatype exit = Exhausted | LimitReached | Terminated | Panicked

definition setSinceClock :: "ChangesOptions \<Rightarrow> ref \<Rightarrow> ChangesOptions" where
  "setSinceClock opts c = opts\<lparr>Since := (Since opts)\<lparr>Clock := Some c\<rparr>\<rparr>"

text \<open>
  One pass through the body of the inner loop: \<open>Inl\<close> when the pass leaves the loop
  (\<^verbatim>\<open>break\<close>, \<^verbatim>\<open>break outer\<close>, \<^verbatim>\<open>return\<close> or a panic), \<open>Inr\<close> when the loop repeats.
\<close>

definition mergeStep ::
  "(SequenceID \<Rightarrow> SequenceID \<Rightarrow> bool) \<Rightarrow> SequenceID \<Rightarrow> (SequenceClock \<Rightarrow> error + string)
     \<Rightarrow> (ChangeEntry \<Rightarrow> bool \<Rightarrow> bool \<Rightarrow> string \<times> string list) \<Rightarrow> nat option \<Rightarrow> ref
     \<Rightarrow> MergeState \<Rightarrow> (exit \<times> MergeState) + MergeState" where
  "mergeStep Before MaxSequenceID GetHash docLayer term cumulativeClock st =
     (let slots1 = map fillCurrent (slots st);
          (minSeq, minEntry) = findMin Before (map fst slots1) 0 MaxSequenceID None
      in case minEntry of
           None \<Rightarrow> Inl (Exhausted, st\<lparr>slots := slots1\<rparr>)
         | Some (minIdx, entry) \<Rightarrow>
            (let (slots2, removed) = clearCurrent minSeq minIdx 0 slots1 (Removed entry);
                 entry1 = entry\<lparr>Removed := removed\<rparr>;
                 entry2 = (if IncludeDocs (options st) \<or> Conflicts (options st)
                           then addDocToChangeEntry docLayer entry1 (options st) else entry1)
             in case stampClock GetHash cumulativeClock (store st) entry2 of
                  Inl err \<Rightarrow> Inl (Panicked, st\<lparr>slots := slots2\<rparr>)
                | Inr (entry3, h) \<Rightarrow>
                   if terminatorTaken term (length (outputCh st))
                   then Inl (Terminated, st\<lparr>slots := slots2, store := h\<rparr>)
                   else
                     (let st1 = st\<lparr>slots := slots2, store := h,
                                   outputCh := outputCh st @ [Some entry3], sentSomething := True\<rparr>
                      in if Limit (options st1) > 0 then
                           (let st2 = st1\<lparr>options := (options st1)\<lparr>Limit := Limit (options st1) - 1\<rparr>\<rparr>
                            in if Limit (options st2) = 0 then Inl (LimitReached, st2)
                               else Inr (st2\<lparr>options := setSinceClock (options st2) cumulativeClock\<rparr>))
                         else Inr (st1\<lparr>options := setSinceClock (options st1) cumulativeClock\<rparr>))))"

fun slotSize :: "slot \<Rightarrow> nat" where
  "slotSize (cur, feed) =
     (case cur of None \<Rightarrow> 0 | Some _ \<Rightarrow> 1) + (case feed of None \<Rightarrow> 0 | Some xs \<Rightarrow> Suc (length xs))"

definition slotsSize :: "slot list \<Rightarrow> nat" where
  "slotsSize ss = sum_list (map slotSize ss)"

lemma slotSize_fillCurrent: "slotSize (fillCurrent s) \<le> slotSize s"
  by (cases s rule: fillCurrent.cases) simp_all

lemma slotsSize_fillCurrent: "slotsSize (map fillCurrent ss) \<le> slotsSize ss"
  unfolding slotsSize_def
  by (induction ss) (simp_all add: add_mono slotSize_fillCurrent del: slotSize.simps)

lemma findMin_result:
  "findMin Before cs i minSeq acc = (m, Some (j, e)) \<Longrightarrow>
     acc = Some (j, e) \<and> m = minSeq \<or> (Some e \<in> set cs \<and> Seq_ce e = m)"
  by (induction Before cs i minSeq acc rule: findMin.induct) (auto split: if_splits)

lemma clearCurrent_size:
  "clearCurrent minSeq minIdx i ss removed = (ss', removed') \<Longrightarrow>
     slotsSize ss' \<le> slotsSize ss \<and>
     ((\<exists>e. Some e \<in> set (map fst ss) \<and> Seq_ce e = minSeq) \<longrightarrow> slotsSize ss' < slotsSize ss)"
proof (induction minSeq minIdx i ss removed arbitrary: ss' removed' rule: clearCurrent.induct)
  case (1 minSeq minIdx i removed)
  then show ?case by (simp add: slotsSize_def)
next
  case (2 minSeq minIdx i feed rest removed)
  obtain r1 m1 where r: "clearCurrent minSeq minIdx (Suc i) rest removed = (r1, m1)"
    by (cases "clearCurrent minSeq minIdx (Suc i) rest removed")
  with 2 have ss': "ss' = (None, feed) # r1" by simp
  from "2.IH"[OF r] ss' show ?case by (auto simp: slotsSize_def)
next
  case (3 minSeq minIdx i cur feed rest removed)
  show ?case
  proof (cases "Seq_ce cur = minSeq")
    case True
    let ?rm = "if i \<noteq> minIdx then concatRemoved removed (Removed cur) else removed"
    obtain r1 m1 where r: "clearCurrent minSeq minIdx (Suc i) rest ?rm = (r1, m1)"
      by (cases "clearCurrent minSeq minIdx (Suc i) rest ?rm")
    with 3 True have ss': "ss' = (None, feed) # r1" by (simp add: Let_def)
    from "3.IH"(1)[OF True refl r] have "slotsSize r1 \<le> slotsSize rest" by blast
    with ss' show ?thesis by (auto simp: slotsSize_def)
  next
    case False
    obtain r1 m1 where r: "clearCurrent minSeq minIdx (Suc i) rest removed = (r1, m1)"
      by (cases "clearCurrent minSeq minIdx (Suc i) rest removed")
    with 3 False have ss': "ss' = (Some cur, feed) # r1" by simp
    from "3.IH"(2)[OF False r] ss' False show ?thesis by (auto simp: slotsSize_def)
  qed
qed

lemma mergeStep_slots:
  assumes "mergeStep Before MaxSequenceID GetHash docLayer term cumulativeClock st = Inr st'"
  shows "\<exists>minSeq minIdx entry removed.
           findMin Before (map fst (map fillCurrent (slots st))) 0 MaxSequenceID None
             = (minSeq, Some (minIdx, entry)) \<and>
           clearCurrent minSeq minIdx 0 (map fillCurrent (slots st)) (Removed entry)
             = (slots st', removed)"
  using assms unfolding mergeStep_def Let_def
  by (auto split: prod.splits option.splits sum.splits if_splits)

lemma mergeStep_decreases:
  assumes "mergeStep Before MaxSequenceID GetHash docLayer term cumulativeClock st = Inr st'"
  shows "slotsSize (slots st') < slotsSize (slots st)"
proof -
  from mergeStep_slots[OF assms] obtain minSeq minIdx entry removed where
    f: "findMin Before (map fst (map fillCurrent (slots st))) 0 MaxSequenceID None
             = (minSeq, Some (minIdx, entry))"
    and c: "clearCurrent minSeq minIdx 0 (map fillCurrent (slots st)) (Removed entry)
             = (slots st', removed)" by blast
  from findMin_result[OF f] have
    "Some entry \<in> set (map fst (map fillCurrent (slots st))) \<and> Seq_ce entry = minSeq"
    by auto
  with clearCurrent_size[OF c] have "slotsSize (slots st') < slotsSize (map fillCurrent (slots st))"
    by blast
  with slotsSize_fillCurrent[of "slots st"] show ?thesis by simp
qed

function mergeLoop ::
  "(SequenceID \<Rightarrow> SequenceID \<Rightarrow> bool) \<Rightarrow> SequenceID \<Rightarrow> (SequenceClock \<Rightarrow> error + string)
     \<Rightarrow> (ChangeEntry \<Rightarrow> bool \<Rightarrow> bool \<Rightarrow> string \<times> string list) \<Rightarrow> nat option \<Rightarrow> ref
     \<Rightarrow> MergeState \<Rightarrow> exit \<times> MergeState" where
  "mergeLoop Before MaxSequenceID GetHash docLayer term cumulativeClock st =
     (case mergeStep Before MaxSequenceID GetHash docLayer term cumulativeClock st of
        Inl done \<Rightarrow> done
      | Inr st' \<Rightarrow> mergeLoop Before MaxSequenceID GetHash docLayer term cumulativeClock st')"
  by pat_completeness auto
termination
  by (relation "measure (\<lambda>(Before, MaxSequenceID, GetHash, docLayer, term, cumulativeClock, st).
         slotsSize (slots st))")
     (auto simp: mergeStep_decreases)

subsection \<open>VectorMultiChangesFeed\<close>

text \<open>
  What the producer goroutine meets outside the code during one pass of the outer loop:
  \<^verbatim>\<open>db.user\<close>; the channels since map (\<^verbatim>\<open>db.user.FilterToAvailableChannels(chans)\<close> or
  \<^verbatim>\<open>channels.AtSequence(chans, 0)\<close>) as the list of its pairs in the order in which
  \<^verbatim>\<open>range\<close> visits them; the change cache; for each channel the outcome of the
  \<^verbatim>\<open>select\<close>s of its feed; the result of \<^verbatim>\<open>changeWaiter.Wait()\<close>; whether the
  \<^verbatim>\<open>select\<close> after the wait finds the terminator; and \<^verbatim>\<open>db.checkForUserUpdates\<close>.
\<close>

record Iteration =
  dbUser :: "User option"
  channelsSince :: "string set \<Rightarrow> (string \<times> VbSequence) list"
  GetChanges :: "string \<Rightarrow> ChangesOptions \<Rightarrow> error + LogEntry list"
  feedTerminator :: "string \<Rightarrow> nat option"
  waitResult :: bool
  terminatedAfterWait :: bool
  checkForUserUpdates :: "seqno \<Rightarrow> error + (seqno \<times> string set option)"

text \<open>The code outside the sources that does not change during a call.\<close>

record Externals =
  Before :: "SequenceID \<Rightarrow> SequenceID \<Rightarrow> bool"
  MaxSequenceID :: SequenceID
  VbucketSequenceBefore :: "SequenceID \<Rightarrow> vbno \<Rightarrow> seqno \<Rightarrow> bool"
  GuestUsername :: string
  VBHash :: "string \<Rightarrow> 32 word"
  GetHash :: "SequenceClock \<Rightarrow> error + string"
  docLayer :: "ChangeEntry \<Rightarrow> bool \<Rightarrow> bool \<Rightarrow> string \<times> string list"
  CurrentUserCount :: seqno

text \<open>
  Modelled from the spec: \<^verbatim>\<open>makeErrorEntry\<close> is not among the sources; it yields an
  entry whose \<^verbatim>\<open>Err\<close> is the message.
\<close>

definition makeErrorEntry :: "string \<Rightarrow> ChangeEntry" where
  "makeErrorEntry message =
     \<lparr>Seq_ce = \<lparr>SeqType = Undefined, Seq = 0, vbNo = 0, Clock = None, TriggeredBy = 0,
                TriggeredByVbNo = 0, TriggeredByClock = None\<rparr>,
      ID = [], Changes = [], Removed = None, Doc = [], Err = message\<rparr>"

text \<open>How the producer goroutine ends.\<close>

datatype ending = Finished | LimitHit | TerminatorFired | FeedError error | WaiterClosed
  | UserReloadFailed | Panic

text \<open>
  The loop over \<^verbatim>\<open>channelsSince\<close> that starts one feed for each channel. An error of
  \<^verbatim>\<open>vectorChangesFeed\<close> makes the producer return; a \<^verbatim>\<open>nil\<close> clock makes it panic.
  The select outcomes of the feed goroutines are fixed when the feed is started: the
  feed reads only the values of its triggered-by clock, which no code changes.
\<close>

fun startFeeds ::
  "Externals \<Rightarrow> Iteration \<Rightarrow> ChangesOptions \<Rightarrow> vbno \<Rightarrow> string set option
     \<Rightarrow> (string \<times> VbSequence) list \<Rightarrow> heap \<Rightarrow> ChangeEntry list list
     \<Rightarrow> ending + (ChangeEntry list list \<times> heap)" where
  "startFeeds ext env opts userVbNo addedChannels [] h feeds = Inr (feeds, h)"
| "startFeeds ext env opts userVbNo addedChannels ((name, vbSeqAddedAt) # rest) h feeds =
     (case chanOptsSince h (Since opts) userVbNo addedChannels name vbSeqAddedAt of
        Inl err \<Rightarrow> Inl Panic
      | Inr (since, h1) \<Rightarrow>
          (case vectorChangesFeed (GetChanges env) (VbucketSequenceBefore ext) h1
                  (feedTerminator env name) name (opts\<lparr>Since := since\<rparr>) of
             Inl err \<Rightarrow> Inl (FeedError err)
           | Inr feed \<Rightarrow>
               startFeeds ext env opts userVbNo addedChannels rest h1 (feeds @ [feed])))"

text \<open>The state in which the merge loop starts: \<^verbatim>\<open>current\<close> is all \<^verbatim>\<open>nil\<close>.\<close>

definition startMerge ::
  "ChangeEntry list list \<Rightarrow> heap \<Rightarrow> ChangesOptions \<Rightarrow> ChangeEntry option list
     \<Rightarrow> MergeState" where
  "startMerge feeds h opts out =
     \<lparr>slots = map (\<lambda>feed. (None, Some feed)) feeds, store = h, options = opts,
      outputCh = out, sentSomething = False\<rparr>"

text \<open>
  The state that one pass of the outer loop hands to the next: the store, the options,
  what has been sent on \<^verbatim>\<open>output\<close>, \<^verbatim>\<open>userChangeCount\<close> and \<^verbatim>\<open>addedChannels\<close>.
\<close>

record OuterState =
  store_o :: heap
  options_o :: ChangesOptions
  output_o :: "ChangeEntry option list"
  userChangeCount :: seqno
  addedChannels :: "string set option"

text \<open>
  The outer loop, one pass for each element of the list of iterations. The list is the
  part of the environment that is known: when it is used up while the loop would go on,
  the result is \<open>None\<close>. \<open>waiter\<close> says whether \<^verbatim>\<open>changeWaiter\<close> is not \<^verbatim>\<open>nil\<close>; the call
  of \<^verbatim>\<open>Wait\<close> on a \<^verbatim>\<open>nil\<close> waiter panics. The two sends outside the merge loop, of \<^verbatim>\<open>nil\<close>
  and of the error entry, are plain sends.
\<close>

fun outerLoop ::
  "Externals \<Rightarrow> nat option \<Rightarrow> string set \<Rightarrow> vbno \<Rightarrow> bool \<Rightarrow> ref \<Rightarrow> Iteration list
     \<Rightarrow> OuterState \<Rightarrow> (ending \<times> ChangeEntry option list) option" where
  "outerLoop ext term chans userVbNo waiter cumulativeClock [] st = None"
| "outerLoop ext term chans userVbNo waiter cumulativeClock (env # envs) st =
     (case startFeeds ext env (options_o st) userVbNo (addedChannels st)
             (channelsSince env chans) (store_o st) [] of
        Inl stopped \<Rightarrow> Some (stopped, output_o st)
      | Inr (feeds, h) \<Rightarrow>
         (case (case dbUser env of
                  None \<Rightarrow> Inr (feeds, [])
                | Some user \<Rightarrow>
                    appendVectorUserFeed (GuestUsername ext) h user feeds [] (options_o st) userVbNo) of
            Inl err \<Rightarrow> Some (Panic, output_o st)
          | Inr (feeds', names) \<Rightarrow>
             (case mergeLoop (Before ext) (MaxSequenceID ext) (GetHash ext) (docLayer ext) term
                     cumulativeClock
                     (startMerge feeds' h (options_o st) (output_o st)) of
                (Terminated, ms) \<Rightarrow> Some (TerminatorFired, outputCh ms)
              | (Panicked, ms) \<Rightarrow> Some (Panic, outputCh ms)
              | (LimitReached, ms) \<Rightarrow> Some (LimitHit, outputCh ms)
              | (Exhausted, ms) \<Rightarrow>
                  if \<not> Continuous (options ms) \<and> (sentSomething ms \<or> \<not> waiter)
                  then Some (Finished, outputCh ms)
                  else if \<not> waiter then Some (Panic, outputCh ms @ [None])
                  else if \<not> waitResult env then Some (WaiterClosed, outputCh ms @ [None])
                  else if terminatedAfterWait env then Some (TerminatorFired, outputCh ms @ [None])
                  else
                    (case checkForUserUpdates env (userChangeCount st) of
                       Inl err \<Rightarrow>
                         Some (UserReloadFailed,
                               outputCh ms @ [None,
                                 Some (makeErrorEntry
                                   ''User not found during reload - terminating changes feed'')])
                     | Inr (count, added) \<Rightarrow>
                         outerLoop ext term chans userVbNo waiter cumulativeClock envs
                           \<lparr>store_o = store ms, options_o = options ms,
                            output_o = outputCh ms @ [None], userChangeCount = count,
                            addedChannels = added\<rparr>))))"

text \<open>
  The entry point: it makes the channel \<^verbatim>\<open>output\<close>, starts the producer and returns the
  channel with a \<^verbatim>\<open>nil\<close> error. The first component is what the producer does: how it
  ends and what it has sent on \<^verbatim>\<open>output\<close> before the deferred \<^verbatim>\<open>close\<close>.
\<close>

definition VectorMultiChangesFeed ::
  "Externals \<Rightarrow> nat option \<Rightarrow> User option \<Rightarrow> Iteration list \<Rightarrow> heap \<Rightarrow> string set
     \<Rightarrow> ChangesOptions \<Rightarrow> (ending \<times> ChangeEntry option list) option \<times> error option" where
  "VectorMultiChangesFeed ext term user envs h chans opts =
     (let userVbNo = (case user of
                        None \<Rightarrow> 0
                      | Some u \<Rightarrow> if Name u \<noteq> [] then ucast (VBHash ext (DocID_u u)) else 0);
          producer =
            (case getChangesClock (Since opts) of
               None \<Rightarrow> Some (Panic, [])
             | Some cr \<Rightarrow>
                (let (cumulativeClock, h1) = alloc h (Copy (cells h cr))
                 in outerLoop ext term chans userVbNo (Wait opts) cumulativeClock envs
                      \<lparr>store_o = h1, options_o = opts, output_o = [],
                       userChangeCount = (if Wait opts then CurrentUserCount ext else 0),
                       addedChannels = None\<rparr>))
      in (producer, None))"

subsection \<open>Notions used in the statements\<close>

text \<open>A pointer is allocated when it is \<^verbatim>\<open>nil\<close> or an address the store has handed out.\<close>

definition allocated :: "heap \<Rightarrow> ref option \<Rightarrow> bool" where
  "allocated h p = (case p of None \<Rightarrow> True | Some r \<Rightarrow> r < nextRef h)"

text \<open>
  The since value of a backfill that starts: the two clocks are new addresses, the first a
  zero clock and the second a copy of the clock stored at \<open>cr\<close>.
\<close>

definition freshCursor :: "heap \<Rightarrow> heap \<Rightarrow> ref \<Rightarrow> seqno \<Rightarrow> vbno \<Rightarrow> SequenceID \<Rightarrow> bool" where
  "freshCursor h h' cr seqAddedAt vbAddedAt s \<longleftrightarrow>
     s = \<lparr>SeqType = Undefined, Seq = 0, vbNo = 0, Clock = Some (nextRef h),
          TriggeredBy = seqAddedAt, TriggeredByVbNo = vbAddedAt,
          TriggeredByClock = Some (Suc (nextRef h))\<rparr> \<and>
     cells h' (nextRef h) = NewSequenceClockImpl \<and>
     cells h' (Suc (nextRef h)) = Copy (cells h cr)"

text \<open>
  What a feed sends when no \<^verbatim>\<open>select\<close> takes the terminator case: the backfill entries,
  then the entries above the triggered-by clock, each in the order of the log.
\<close>

definition backfillPart ::
  "(SequenceID \<Rightarrow> vbno \<Rightarrow> seqno \<Rightarrow> bool) \<Rightarrow> SequenceClock \<Rightarrow> SequenceID \<Rightarrow> string
     \<Rightarrow> LogEntry list \<Rightarrow> ChangeEntry list" where
  "backfillPart VSB tbc since channel log =
     map (\<lambda>L. makeChangeEntry L (backfillSeqID since L) channel)
       (filter (\<lambda>L. isBackfill tbc L \<and> VSB since (VbNo L) (Sequence L)) log)"

definition livePart :: "SequenceClock \<Rightarrow> string \<Rightarrow> LogEntry list \<Rightarrow> ChangeEntry list" where
  "livePart tbc channel log =
     map (\<lambda>L. makeChangeEntry L (liveSeqID L) channel) (filter (\<lambda>L. \<not> isBackfill tbc L) log)"

definition entryOf :: "SequenceClock \<Rightarrow> SequenceID \<Rightarrow> string \<Rightarrow> LogEntry \<Rightarrow> ChangeEntry" where
  "entryOf tbc since channel L =
     makeChangeEntry L (if isBackfill tbc L then backfillSeqID since L else liveSeqID L) channel"

text \<open>
  The members of a removed set (\<^verbatim>\<open>nil\<close> has none), the current entries of a sequence,
  a slot after the clearing loop, and the state in which a pass of the merge loop ends.
\<close>

definition membersOf :: "string set option \<Rightarrow> string set" where
  "membersOf removed = (case removed of None \<Rightarrow> {} | Some r \<Rightarrow> r)"

definition coinciding :: "SequenceID \<Rightarrow> slot list \<Rightarrow> ChangeEntry list" where
  "coinciding minSeq ss =
     concat (map (\<lambda>s. case fst s of
                          None \<Rightarrow> []
                        | Some cur \<Rightarrow> if Seq_ce cur = minSeq then [cur] else []) ss)"

fun clearSlot :: "SequenceID \<Rightarrow> slot \<Rightarrow> slot" where
  "clearSlot minSeq (None, feed) = (None, feed)"
| "clearSlot minSeq (Some cur, feed) = (if Seq_ce cur = minSeq then None else Some cur, feed)"

definition stepState :: "(exit \<times> MergeState) + MergeState \<Rightarrow> MergeState" where
  "stepState r = (case r of Inl (ex, st) \<Rightarrow> st | Inr st \<Rightarrow> st)"

text \<open>
  The order of the merged stream. \<open>Before\<close> is a parameter; the merge needs it to be a
  strict order that does not read the clock pointer, which the merger replaces on the entry
  it sends. A slot still has to deliver its current entry and then what its feed holds.
\<close>

definition strictOrder :: "(SequenceID \<Rightarrow> SequenceID \<Rightarrow> bool) \<Rightarrow> bool" where
  "strictOrder before =
     ((\<forall>a. \<not> before a a) \<and> (\<forall>a b c. before a b \<and> before b c \<longrightarrow> before a c))"

definition ignoresClock :: "(SequenceID \<Rightarrow> SequenceID \<Rightarrow> bool) \<Rightarrow> bool" where
  "ignoresClock before =
     (\<forall>a b c. before (a\<lparr>Clock := c\<rparr>) b = before a b \<and> before a (b\<lparr>Clock := c\<rparr>) = before a b)"

definition inOrder :: "(SequenceID \<Rightarrow> SequenceID \<Rightarrow> bool) \<Rightarrow> ChangeEntry \<Rightarrow> ChangeEntry \<Rightarrow> bool" where
  "inOrder before E1 E2 = (\<not> before (Seq_ce E2) (Seq_ce E1))"

definition pending :: "slot \<Rightarrow> ChangeEntry list" where
  "pending s = (case fst s of None \<Rightarrow> [] | Some cur \<Rightarrow> [cur]) @
               (case snd s of None \<Rightarrow> [] | Some xs \<Rightarrow> xs)"

definition slotsOrdered ::
  "(SequenceID \<Rightarrow> SequenceID \<Rightarrow> bool) \<Rightarrow> SequenceID option \<Rightarrow> slot list \<Rightarrow> bool" where
  "slotsOrdered before prev ss =
     (\<forall>s \<in> set ss. successively (inOrder before) (pending s) \<and>
        (\<forall>x m. prev = Some m \<and> x \<in> set (take 1 (pending s)) \<longrightarrow> \<not> before (Seq_ce x) m))"

definition ascending :: "(SequenceID \<Rightarrow> SequenceID \<Rightarrow> bool) \<Rightarrow> ChangeEntry list \<Rightarrow> bool" where
  "ascending before xs =
     (sorted_wrt (\<lambda>a b. before (Seq_ce a) (Seq_ce b)) xs \<and> (\<forall>x \<in> set xs. Clock (Seq_ce x) = None))"

definition sequenceKey :: "ChangeEntry \<Rightarrow> SequenceID" where
  "sequenceKey E = (Seq_ce E)\<lparr>Clock := None\<rparr>"

definition slotsFresh ::
  "(SequenceID \<Rightarrow> SequenceID \<Rightarrow> bool) \<Rightarrow> SequenceID set \<Rightarrow> slot list \<Rightarrow> bool" where
  "slotsFresh before M ss =
     (\<forall>s \<in> set ss. ascending before (pending s) \<and> (\<forall>x \<in> set (pending s). Seq_ce x \<notin> M))"

definition feedsOrdered :: "(SequenceID \<Rightarrow> SequenceID \<Rightarrow> bool) \<Rightarrow> ChangeEntry list list \<Rightarrow> bool" where
  "feedsOrdered before feeds = (\<forall>feed \<in> set feeds. successively (inOrder before) feed)"

definition feedsAscending :: "(SequenceID \<Rightarrow> SequenceID \<Rightarrow> bool) \<Rightarrow> ChangeEntry list list \<Rightarrow> bool" where
  "feedsAscending before feeds = (\<forall>feed \<in> set feeds. ascending before feed)"

text \<open>The merge state with another limit, and what a run of the merge loop has sent.\<close>

definition withLimit :: "MergeState \<Rightarrow> nat \<Rightarrow> MergeState" where
  "withLimit st n = st\<lparr>options := (options st)\<lparr>Limit := n\<rparr>\<rparr>"

definition sentBy :: "MergeState \<Rightarrow> MergeState \<Rightarrow> ChangeEntry option list" where
  "sentBy st st' = drop (length (outputCh st)) (outputCh st')"

text \<open>
  The entries on the output that are not the \<^verbatim>\<open>nil\<close> that announces a wait, and those of
  them that are not the error entry either: only a failed reload of the user sends an error
  entry, as the last entry of the stream.
\<close>

definition entriesSent :: "ChangeEntry option list \<Rightarrow> nat" where
  "entriesSent out = length (filter (\<lambda>x. x \<noteq> None) out)"

definition changesSent :: "ending \<Rightarrow> ChangeEntry option list \<Rightarrow> nat" where
  "changesSent e out = entriesSent out - (if e = UserReloadFailed then 1 else 0)"

subsection \<open>Concrete inputs\<close>

definition exampleStore :: heap where
  "exampleStore =
     \<lparr>cells = (\<lambda>_. NewSequenceClockImpl)
        (0 := \<lparr>clockValue = (\<lambda>_. 0)(2 := 4), hashedValue = []\<rparr>,
         1 := \<lparr>clockValue = (\<lambda>_. 0)(2 := 10), hashedValue = []\<rparr>),
      nextRef = 2\<rparr>"

definition exampleSince :: SequenceID where
  "exampleSince =
     \<lparr>SeqType = ClockSequenceType, Seq = 9, vbNo = 2, Clock = Some 0, TriggeredBy = 10,
      TriggeredByVbNo = 2, TriggeredByClock = Some 1\<rparr>"

definition exampleGrant :: VbSequence where
  "exampleGrant = \<lparr>VbNo_vs = Some 2, Sequence_vs = 20\<rparr>"

definition exampleVSB :: "SequenceID \<Rightarrow> vbno \<Rightarrow> seqno \<Rightarrow> bool" where
  "exampleVSB s vb sq = (if vbNo s = vb then Seq s < sq else vbNo s < vb)"

definition exampleLog :: "LogEntry list" where
  "exampleLog =
     [\<lparr>DocID = ''p'', Sequence = 6, VbNo = 2, RevID = ''1-a'', Removed_le = False\<rparr>,
      \<lparr>DocID = ''q'', Sequence = 10, VbNo = 2, RevID = ''1-b'', Removed_le = False\<rparr>,
      \<lparr>DocID = ''r'', Sequence = 12, VbNo = 2, RevID = ''1-c'', Removed_le = False\<rparr>]"

definition exampleCache :: "string \<Rightarrow> ChangesOptions \<Rightarrow> error + LogEntry list" where
  "exampleCache channel opts = Inr exampleLog"

definition exampleOptions :: ChangesOptions where
  "exampleOptions =
     \<lparr>Since = exampleSince, Limit = 0, Conflicts = False, IncludeDocs = False, Wait = False,
      Continuous = False\<rparr>"

definition exampleUser :: User where
  "exampleUser = \<lparr>Name = ''alice'', DocID_u = ''_sync:user:alice'', Sequence_u = 7\<rparr>"

definition exampleBefore :: "SequenceID \<Rightarrow> SequenceID \<Rightarrow> bool" where
  "exampleBefore a b = (Seq a < Seq b \<or> (Seq a = Seq b \<and> vbNo a < vbNo b))"

definition exampleMaxSequenceID :: SequenceID where
  "exampleMaxSequenceID =
     \<lparr>SeqType = ClockSequenceType, Seq = 18446744073709551615, vbNo = 65535, Clock = None,
      TriggeredBy = 0, TriggeredByVbNo = 0, TriggeredByClock = None\<rparr>"

definition exampleGetHash :: "SequenceClock \<Rightarrow> error + string" where
  "exampleGetHash c = Inr ''1-abc''"

definition failingGetHash :: "SequenceClock \<Rightarrow> error + string" where
  "failingGetHash c = Inl (CacheError ''hash bucket unavailable'')"

definition exampleDocLayer :: "ChangeEntry \<Rightarrow> bool \<Rightarrow> bool \<Rightarrow> string \<times> string list" where
  "exampleDocLayer entry includeDocs conflicts = ([], [])"

definition exampleRemoval :: LogEntry where
  "exampleRemoval = \<lparr>DocID = ''z'', Sequence = 7, VbNo = 1, RevID = ''2-x'', Removed_le = True\<rparr>"

definition exampleMergeState :: MergeState where
  "exampleMergeState =
     \<lparr>slots = [(None, Some [makeChangeEntry exampleRemoval (liveSeqID exampleRemoval) ''A'']),
               (None, Some [makeChangeEntry exampleRemoval (liveSeqID exampleRemoval) ''B''])],
      store = exampleStore, options = exampleOptions, outputCh = [], sentSomething = False\<rparr>"

definition exampleBackfillEntry :: ChangeEntry where
  "exampleBackfillEntry =
     makeChangeEntry (exampleLog ! 1) (backfillSeqID exampleSince (exampleLog ! 1)) ''C''"

definition exampleFeeds :: "ChangeEntry list list" where
  "exampleFeeds =
     [[makeChangeEntry \<lparr>DocID = ''x'', Sequence = 5, VbNo = 1, RevID = ''1-x'', Removed_le = False\<rparr>
         \<lparr>SeqType = ClockSequenceType, Seq = 5, vbNo = 1, Clock = None, TriggeredBy = 0,
          TriggeredByVbNo = 0, TriggeredByClock = None\<rparr> ''A''],
      [makeChangeEntry \<lparr>DocID = ''y'', Sequence = 3, VbNo = 2, RevID = ''1-y'', Removed_le = False\<rparr>
         \<lparr>SeqType = ClockSequenceType, Seq = 3, vbNo = 2, Clock = None, TriggeredBy = 0,
          TriggeredByVbNo = 0, TriggeredByClock = None\<rparr> ''B'']]"

definition exampleExternals :: Externals where
  "exampleExternals =
     \<lparr>Before = exampleBefore, MaxSequenceID = exampleMaxSequenceID,
      VbucketSequenceBefore = exampleVSB, GuestUsername = ''GUEST'', VBHash = (\<lambda>docid. 2),
      GetHash = exampleGetHash, docLayer = exampleDocLayer, CurrentUserCount = 0\<rparr>"

definition plainOptions :: ChangesOptions where
  "plainOptions =
     \<lparr>Since = \<lparr>SeqType = ClockSequenceType, Seq = 0, vbNo = 0, Clock = Some 0, TriggeredBy = 0,
               TriggeredByVbNo = 0, TriggeredByClock = None\<rparr>,
      Limit = 0, Conflicts = False, IncludeDocs = False, Wait = False, Continuous = False\<rparr>"

definition failingIteration :: Iteration where
  "failingIteration =
     \<lparr>dbUser = None,
      channelsSince = (\<lambda>chans. [(''A'', \<lparr>VbNo_vs = None, Sequence_vs = 0\<rparr>)]),
      GetChanges = (\<lambda>channel opts. Inl (CacheError ''index bucket unavailable'')),
      feedTerminator = (\<lambda>channel. None),
      waitResult = False, terminatedAfterWait = False,
      checkForUserUpdates = (\<lambda>count. Inr (count, None))\<rparr>"

definition idleIteration :: Iteration where
  "idleIteration =
     \<lparr>dbUser = None,
      channelsSince = (\<lambda>chans. [(''A'', \<lparr>VbNo_vs = None, Sequence_vs = 0\<rparr>)]),
      GetChanges = (\<lambda>channel opts. Inr []),
      feedTerminator = (\<lambda>channel. Some 0),
      waitResult = True, terminatedAfterWait = True,
      checkForUserUpdates = (\<lambda>count. Inr (count, None))\<rparr>"

definition exampleStart :: MergeState where
  "exampleStart = startMerge exampleFeeds exampleStore plainOptions []"

definition busyIteration :: Iteration where
  "busyIteration =
     \<lparr>dbUser = None,
      channelsSince = (\<lambda>chans. [(''A'', \<lparr>VbNo_vs = None, Sequence_vs = 0\<rparr>),
                                (''B'', \<lparr>VbNo_vs = None, Sequence_vs = 0\<rparr>)]),
      GetChanges = (\<lambda>channel opts.
         if channel = ''A''
         then Inr [\<lparr>DocID = ''x'', Sequence = 5, VbNo = 1, RevID = ''1-x'', Removed_le = False\<rparr>]
         else Inr [\<lparr>DocID = ''y'', Sequence = 3, VbNo = 2, RevID = ''1-y'', Removed_le = False\<rparr>]),
      feedTerminator = (\<lambda>channel. None),
      waitResult = False, terminatedAfterWait = False,
      checkForUserUpdates = (\<lambda>count. Inr (count, None))\<rparr>"

section \<open>Properties\<close>

subsection \<open>The choice of the per-channel since value\<close>

lemma chanOptsSince_start:
  assumes "getChangesClock since = Some cr" and "cr < nextRef h"
    and "isNewChannel added name \<or>
         (0 < Sequence_vs g \<and> GetSequence (cells h cr) (vbAddedAt_of userVbNo g) < Sequence_vs g \<and>
          \<not> backfillInProgress h since (vbAddedAt_of userVbNo g) (Sequence_vs g))"
  shows "\<exists>s' h'. chanOptsSince h since userVbNo added name g = Inr (s', h') \<and>
           freshCursor h h' cr (Sequence_vs g) (vbAddedAt_of userVbNo g) s'"
  using assms by (auto simp: chanOptsSince_def Let_def alloc_def freshCursor_def)

lemma chanOptsSince_other:
  assumes "getChangesClock since = Some cr"
    and "\<not> (isNewChannel added name \<or>
         (0 < Sequence_vs g \<and> GetSequence (cells h cr) (vbAddedAt_of userVbNo g) < Sequence_vs g \<and>
          \<not> backfillInProgress h since (vbAddedAt_of userVbNo g) (Sequence_vs g)))"
  shows "\<exists>s' h'. chanOptsSince h since userVbNo added name g = Inr (s', h') \<and>
           TriggeredByClock s' = TriggeredByClock since"
  using assms by (auto simp: chanOptsSince_def Let_def alloc_def)

lemma chanOptsSince_fresh_iff:
  assumes "getChangesClock since = Some cr"
      and "allocated h (Clock since)" and "allocated h (TriggeredByClock since)"
  shows "\<exists>s' h'. chanOptsSince h since userVbNo added name g = Inr (s', h') \<and>
           ((isNewChannel added name \<or>
              (0 < Sequence_vs g \<and>
               GetSequence (cells h cr) (vbAddedAt_of userVbNo g) < Sequence_vs g \<and>
               \<not> backfillInProgress h since (vbAddedAt_of userVbNo g) (Sequence_vs g)))
            \<longleftrightarrow> freshCursor h h' cr (Sequence_vs g) (vbAddedAt_of userVbNo g) s')"
proof (cases "isNewChannel added name \<or>
              (0 < Sequence_vs g \<and>
               GetSequence (cells h cr) (vbAddedAt_of userVbNo g) < Sequence_vs g \<and>
               \<not> backfillInProgress h since (vbAddedAt_of userVbNo g) (Sequence_vs g))")
  case True
  have "cr < nextRef h"
    using assms by (auto simp: getChangesClock_def allocated_def split: if_splits)
  from chanOptsSince_start[OF assms(1) this True] True show ?thesis by blast
next
  case False
  from chanOptsSince_other[OF assms(1) False] obtain s' h' where
    r: "chanOptsSince h since userVbNo added name g = Inr (s', h')"
    and t: "TriggeredByClock s' = TriggeredByClock since" by blast
  have "\<not> freshCursor h h' cr (Sequence_vs g) (vbAddedAt_of userVbNo g) s'"
  proof
    assume "freshCursor h h' cr (Sequence_vs g) (vbAddedAt_of userVbNo g) s'"
    then have "TriggeredByClock s' = Some (Suc (nextRef h))" by (simp add: freshCursor_def)
    with t have "TriggeredByClock since = Some (Suc (nextRef h))" by simp
    with assms(3) show False by (simp add: allocated_def)
  qed
  with r False show ?thesis by blast
qed

text \<open>
  C2, as amended. For a channel with grant \<open>g\<close>, when the cursor clock
  \<^verbatim>\<open>getChangesClock(options.Since)\<close> is not \<^verbatim>\<open>nil\<close> and the pointers of \<^verbatim>\<open>options.Since\<close>
  are allocated, the per-channel feed gets a fresh backfill cursor (sequence 0, vbucket 0,
  a new zero clock, triggered by the grant, and as triggered-by clock a new copy of the
  cursor clock) exactly when the channel is newly added, or the grant sequence is positive
  and above the cursor's sequence for the grant's vbucket and no backfill is in progress
  for the channel.
\<close>

theorem start_backfill_exactly_when:
  assumes "getChangesClock since = Some cr"
      and "allocated h (Clock since)" and "allocated h (TriggeredByClock since)"
  shows "\<exists>s' h'. chanOptsSince h since userVbNo added name g = Inr (s', h') \<and>
           ((isNewChannel added name \<or>
              (0 < Sequence_vs g \<and>
               GetSequence (cells h cr) (vbAddedAt_of userVbNo g) < Sequence_vs g \<and>
               \<not> backfillInProgress h since (vbAddedAt_of userVbNo g) (Sequence_vs g)))
            \<longleftrightarrow> freshCursor h h' cr (Sequence_vs g) (vbAddedAt_of userVbNo g) s')"
  using assms by (rule chanOptsSince_fresh_iff)

theorem start_backfill_witness:
  "getChangesClock exampleSince = Some 1 \<and>
   allocated exampleStore (Clock exampleSince) \<and>
   allocated exampleStore (TriggeredByClock exampleSince) \<and>
   (\<exists>s' h'. chanOptsSince exampleStore exampleSince 0 None ''C'' exampleGrant = Inr (s', h') \<and>
       freshCursor exampleStore h' 1 20 2 s')"
  using start_backfill_exactly_when[of exampleSince 1 exampleStore 0 None "''C''" exampleGrant]
  by (simp add: getChangesClock_def exampleSince_def exampleStore_def exampleGrant_def
      allocated_def isNewChannel_def vbAddedAt_of_def backfillInProgress_def GetSequence_def)

text \<open>
  C2 as stated fails: with a triggered-by clock in \<^verbatim>\<open>options.Since\<close> the new triggered-by
  clock is a copy of that clock (sequence 10 for vbucket 2), not of \<^verbatim>\<open>options.Since.Clock\<close>
  (sequence 4 for vbucket 2).
\<close>

theorem start_backfill_copies_triggered_by_clock:
  "(case chanOptsSince exampleStore exampleSince 0 None ''C'' exampleGrant of
      Inl err \<Rightarrow> False
    | Inr (s, h) \<Rightarrow>
        (case TriggeredByClock s of
           None \<Rightarrow> False
         | Some t \<Rightarrow> GetSequence (cells h t) 2 = 10)) \<and>
   Clock exampleSince = Some 0 \<and>
   GetSequence (Copy (cells exampleStore 0)) 2 = 4 \<and>
   isNewChannel None ''C'' = False \<and>
   backfillInProgress exampleStore exampleSince 2 20 = False"
  by (simp add: chanOptsSince_def getChangesClock_def exampleSince_def exampleStore_def
      exampleGrant_def isNewChannel_def vbAddedAt_of_def backfillInProgress_def GetSequence_def
      alloc_def Copy_def Let_def)

subsection \<open>The per-channel feed\<close>

lemma sendBackfill_prefix:
  "sendBackfill VSB tbc since channel term log sent = (out, ab, log') \<Longrightarrow>
   (\<exists>n. out = sent @ take n (backfillPart VSB tbc since channel log)) \<and>
   (\<not> ab \<longrightarrow> out = sent @ backfillPart VSB tbc since channel log \<and>
       log' = map (\<lambda>L. if isBackfill tbc L then None else Some L) log)"
proof (induction log arbitrary: sent out ab log')
  case Nil
  then show ?case by (simp add: backfillPart_def)
next
  case (Cons L log)
  show ?case
  proof (cases "isBackfill tbc L \<and> VSB since (VbNo L) (Sequence L)")
    case True
    show ?thesis
    proof (cases "terminatorTaken term (length sent)")
      case T: True
      with True Cons.prems have "out = sent" "ab" by auto
      then show ?thesis by (auto intro: exI[of _ 0])
    next
      case F: False
      let ?e = "makeChangeEntry L (backfillSeqID since L) channel"
      obtain o1 a1 l1 where r: "sendBackfill VSB tbc since channel term log (sent @ [?e]) = (o1, a1, l1)"
        by (metis prod_cases3)
      with True F Cons.prems have eq: "out = o1" "ab = a1" "log' = None # l1" by auto
      from Cons.IH[OF r] obtain n where n: "o1 = (sent @ [?e]) @ take n (backfillPart VSB tbc since channel log)"
        by blast
      have "out = sent @ take (Suc n) (backfillPart VSB tbc since channel (L # log))"
        using n eq True by (simp add: backfillPart_def)
      moreover have "\<not> ab \<longrightarrow> out = sent @ backfillPart VSB tbc since channel (L # log) \<and>
       log' = map (\<lambda>L. if isBackfill tbc L then None else Some L) (L # log)"
        using Cons.IH[OF r] eq True by (simp add: backfillPart_def)
      ultimately show ?thesis by blast
    qed
  next
    case False
    obtain o1 a1 l1 where r: "sendBackfill VSB tbc since channel term log sent = (o1, a1, l1)"
      by (metis prod_cases3)
    with False Cons.prems have eq: "out = o1" "ab = a1" "log' = (if isBackfill tbc L then None else Some L) # l1"
      by (auto simp: Let_def)
    from Cons.IH[OF r] eq False show ?thesis by (auto simp: backfillPart_def)
  qed
qed

lemma sendBackfill_not_aborted:
  "sendBackfill VSB tbc since channel None log sent = (out, ab, log') \<Longrightarrow> \<not> ab"
  by (induction log arbitrary: sent out ab log')
     (auto simp: terminatorTaken_def Let_def split: prod.splits if_splits)

lemma sendRemaining_prefix:
  "\<exists>n. sendRemaining channel term (map (\<lambda>L. if isBackfill tbc L then None else Some L) log) sent =
     sent @ take n (livePart tbc channel log)"
proof (induction log arbitrary: sent)
  case Nil
  then show ?case by (simp add: livePart_def)
next
  case (Cons L log)
  show ?case
  proof (cases "isBackfill tbc L")
    case True
    then show ?thesis using Cons.IH[of sent] by (simp add: livePart_def)
  next
    case False
    show ?thesis
    proof (cases "terminatorTaken term (length sent)")
      case True
      with False show ?thesis by (auto intro: exI[of _ 0])
    next
      case F: False
      let ?e = "makeChangeEntry L (liveSeqID L) channel"
      from Cons.IH[of "sent @ [?e]"] obtain n where
        "sendRemaining channel term (map (\<lambda>L. if isBackfill tbc L then None else Some L) log) (sent @ [?e]) =
           (sent @ [?e]) @ take n (livePart tbc channel log)"
        by blast
      then show ?thesis using False F by (auto simp: livePart_def intro!: exI[of _ "Suc n"])
    qed
  qed
qed

lemma sendRemaining_None:
  "sendRemaining channel None (map (\<lambda>L. if isBackfill tbc L then None else Some L) log) sent =
     sent @ livePart tbc channel log"
  by (induction log arbitrary: sent) (simp_all add: terminatorTaken_def livePart_def)

lemma vectorChangesFeed_full:
  assumes "cache channel opts = Inr log" and "TriggeredByClock (Since opts) = Some t"
  shows "vectorChangesFeed cache VSB h None channel opts =
           Inr (backfillPart VSB (cells h t) (Since opts) channel log @ livePart (cells h t) channel log)"
proof (cases "log = []")
  case True
  with assms show ?thesis by (simp add: vectorChangesFeed_def backfillPart_def livePart_def)
next
  case False
  obtain out ab log' where r:
    "sendBackfill VSB (cells h t) (Since opts) channel None log [] = (out, ab, log')"
    by (metis prod_cases3)
  from sendBackfill_not_aborted[OF r] have nab: "\<not> ab" .
  with sendBackfill_prefix[OF r] have
    "out = backfillPart VSB (cells h t) (Since opts) channel log"
    "log' = map (\<lambda>L. if isBackfill (cells h t) L then None else Some L) log" by auto
  with r nab False assms show ?thesis
    by (simp add: vectorChangesFeed_def sendRemaining_None)
qed

lemma vectorChangesFeed_prefix:
  assumes "cache channel opts = Inr log" and "TriggeredByClock (Since opts) = Some t"
    and "vectorChangesFeed cache VSB h term channel opts = Inr out"
  shows "\<exists>n. out = take n (backfillPart VSB (cells h t) (Since opts) channel log
                            @ livePart (cells h t) channel log)"
proof (cases "log = []")
  case True
  with assms have "out = take 0 (backfillPart VSB (cells h t) (Since opts) channel log
                            @ livePart (cells h t) channel log)"
    by (simp add: vectorChangesFeed_def)
  then show ?thesis by blast
next
  case False
  let ?bf = "backfillPart VSB (cells h t) (Since opts) channel log"
  let ?lv = "livePart (cells h t) channel log"
  obtain sent ab log' where r:
    "sendBackfill VSB (cells h t) (Since opts) channel term log [] = (sent, ab, log')"
    by (metis prod_cases3)
  show ?thesis
  proof (cases ab)
    case True
    from sendBackfill_prefix[OF r] obtain n where n: "sent = take n ?bf" by auto
    from True r False assms have "out = sent" by (simp add: vectorChangesFeed_def)
    with n have "out = take (min n (length ?bf)) (?bf @ ?lv)" by (simp add: min_def)
    then show ?thesis by blast
  next
    case F: False
    with sendBackfill_prefix[OF r] have s: "sent = ?bf"
      and l: "log' = map (\<lambda>L. if isBackfill (cells h t) L then None else Some L) log" by auto
    from sendRemaining_prefix[of channel "term" "cells h t" log sent] obtain n where
      n: "sendRemaining channel term log' sent = sent @ take n ?lv" using l by auto
    from F r False assms have "out = sendRemaining channel term log' sent"
      by (simp add: vectorChangesFeed_def)
    with n s have "out = take (length ?bf + n) (?bf @ ?lv)" by simp
    then show ?thesis by blast
  qed
qed

lemma makeChangeEntry_Seq [simp]: "Seq_ce (makeChangeEntry L s c) = s"
  by (simp add: makeChangeEntry_def)

lemma filter_nth: "filter P xs = map ((!) xs) (filter (\<lambda>i. P (xs ! i)) [0..<length xs])"
proof -
  have "filter P (map ((!) xs) [0..<length xs]) =
          map ((!) xs) (filter (P \<circ> (!) xs) [0..<length xs])"
    by (rule filter_map)
  then show ?thesis by (simp add: map_nth o_def)
qed

lemma feed_indices:
  "\<exists>idxs. distinct idxs \<and> set idxs \<subseteq> {..<length log} \<and>
      backfillPart VSB tbc since channel log @ livePart tbc channel log =
        map (\<lambda>i. entryOf tbc since channel (log ! i)) idxs"
proof -
  let ?I1 = "filter (\<lambda>i. isBackfill tbc (log ! i) \<and> VSB since (VbNo (log ! i)) (Sequence (log ! i)))
               [0..<length log]"
  let ?I2 = "filter (\<lambda>i. \<not> isBackfill tbc (log ! i)) [0..<length log]"
  have 1: "backfillPart VSB tbc since channel log = map (\<lambda>i. entryOf tbc since channel (log ! i)) ?I1"
    unfolding backfillPart_def
    by (subst filter_nth) (simp add: entryOf_def)
  have 2: "livePart tbc channel log = map (\<lambda>i. entryOf tbc since channel (log ! i)) ?I2"
    unfolding livePart_def
    by (subst filter_nth) (simp add: entryOf_def)
  have "distinct (?I1 @ ?I2)" by auto
  moreover have "set (?I1 @ ?I2) \<subseteq> {..<length log}" by auto
  moreover have "backfillPart VSB tbc since channel log @ livePart tbc channel log =
        map (\<lambda>i. entryOf tbc since channel (log ! i)) (?I1 @ ?I2)"
    using 1 2 by simp
  ultimately show ?thesis by blast
qed

text \<open>
  C3. In a backfill pass (\<^verbatim>\<open>options.Since.TriggeredByClock\<close> is not \<^verbatim>\<open>nil\<close>) a feed that
  no terminator stops sends the log entry \<open>L\<close> as backfill entry, with the triggered-by
  fields of \<^verbatim>\<open>options.Since\<close>, if and only if \<open>L\<close> is at or below the triggered-by clock
  for its vbucket and \<^verbatim>\<open>options.Since.VbucketSequenceBefore\<close> holds of it. Whatever the
  terminator does, every entry sent with \<^verbatim>\<open>TriggeredBy\<close> other than 0 carries the
  triggered-by fields of \<^verbatim>\<open>options.Since\<close> and is at or below the triggered-by clock for
  its vbucket.
\<close>

theorem backfill_pass_emits_iff:
  assumes "cache channel opts = Inr log" and "TriggeredByClock (Since opts) = Some t"
  shows "\<exists>full. vectorChangesFeed cache VSB h None channel opts = Inr full \<and>
          (\<forall>L \<in> set log.
             (makeChangeEntry L (backfillSeqID (Since opts) L) channel \<in> set full) =
             (Sequence L \<le> GetSequence (cells h t) (VbNo L) \<and> VSB (Since opts) (VbNo L) (Sequence L))) \<and>
          (\<forall>term out E. vectorChangesFeed cache VSB h term channel opts = Inr out \<and> E \<in> set out \<and>
               TriggeredBy (Seq_ce E) \<noteq> 0 \<longrightarrow>
               TriggeredBy (Seq_ce E) = TriggeredBy (Since opts) \<and>
               TriggeredByVbNo (Seq_ce E) = TriggeredByVbNo (Since opts) \<and>
               TriggeredByClock (Seq_ce E) = Some t \<and>
               Seq (Seq_ce E) \<le> GetSequence (cells h t) (vbNo (Seq_ce E)))"
proof -
  let ?bf = "backfillPart VSB (cells h t) (Since opts) channel log"
  let ?lv = "livePart (cells h t) channel log"
  have full: "vectorChangesFeed cache VSB h None channel opts = Inr (?bf @ ?lv)"
    using assms by (rule vectorChangesFeed_full)
  have inj: "\<And>L L'. makeChangeEntry L (backfillSeqID (Since opts) L) channel =
                  makeChangeEntry L' (backfillSeqID (Since opts) L') channel \<Longrightarrow> L = L'"
    by (auto simp: makeChangeEntry_def backfillSeqID_def split: if_splits)
  have notlive: "\<And>L L'. makeChangeEntry L (backfillSeqID (Since opts) L) channel \<noteq>
                  makeChangeEntry L' (liveSeqID L') channel"
    using assms(2) by (auto simp: makeChangeEntry_def backfillSeqID_def liveSeqID_def)
  have iff: "\<forall>L \<in> set log.
             (makeChangeEntry L (backfillSeqID (Since opts) L) channel \<in> set (?bf @ ?lv)) =
             (Sequence L \<le> GetSequence (cells h t) (VbNo L) \<and> VSB (Since opts) (VbNo L) (Sequence L))"
  proof
    fix L assume L: "L \<in> set log"
    have "(makeChangeEntry L (backfillSeqID (Since opts) L) channel \<in> set ?lv) = False"
      using notlive by (auto simp: livePart_def)
    moreover have "(makeChangeEntry L (backfillSeqID (Since opts) L) channel \<in> set ?bf) =
             (isBackfill (cells h t) L \<and> VSB (Since opts) (VbNo L) (Sequence L))"
      using L inj by (auto simp: backfillPart_def)
    ultimately show "(makeChangeEntry L (backfillSeqID (Since opts) L) channel \<in> set (?bf @ ?lv)) =
             (Sequence L \<le> GetSequence (cells h t) (VbNo L) \<and> VSB (Since opts) (VbNo L) (Sequence L))"
      by (simp add: isBackfill_def)
  qed
  have cont: "\<forall>term out E. vectorChangesFeed cache VSB h term channel opts = Inr out \<and> E \<in> set out \<and>
               TriggeredBy (Seq_ce E) \<noteq> 0 \<longrightarrow>
               TriggeredBy (Seq_ce E) = TriggeredBy (Since opts) \<and>
               TriggeredByVbNo (Seq_ce E) = TriggeredByVbNo (Since opts) \<and>
               TriggeredByClock (Seq_ce E) = Some t \<and>
               Seq (Seq_ce E) \<le> GetSequence (cells h t) (vbNo (Seq_ce E))"
  proof (intro allI impI)
    fix "term" out E
    assume a: "vectorChangesFeed cache VSB h term channel opts = Inr out \<and> E \<in> set out \<and>
               TriggeredBy (Seq_ce E) \<noteq> 0"
    from a have "vectorChangesFeed cache VSB h term channel opts = Inr out" by simp
    from vectorChangesFeed_prefix[OF assms(1) assms(2) this] obtain n where
      "out = take n (?bf @ ?lv)" by blast
    with a have "E \<in> set (?bf @ ?lv)" by (metis in_set_takeD)
    then have "E \<in> set ?bf \<or> E \<in> set ?lv" by simp
    then show "TriggeredBy (Seq_ce E) = TriggeredBy (Since opts) \<and>
               TriggeredByVbNo (Seq_ce E) = TriggeredByVbNo (Since opts) \<and>
               TriggeredByClock (Seq_ce E) = Some t \<and>
               Seq (Seq_ce E) \<le> GetSequence (cells h t) (vbNo (Seq_ce E))"
    proof
      assume "E \<in> set ?bf"
      then show ?thesis using assms(2)
        by (auto simp: backfillPart_def backfillSeqID_def isBackfill_def)
    next
      assume "E \<in> set ?lv"
      with a show ?thesis by (auto simp: livePart_def liveSeqID_def)
    qed
  qed
  from full iff cont show ?thesis by blast
qed

theorem backfill_pass_emits_iff_witness:
  "exampleCache ''C'' exampleOptions = Inr exampleLog \<and>
   TriggeredByClock (Since exampleOptions) = Some 1 \<and>
   vectorChangesFeed exampleCache exampleVSB exampleStore None ''C'' exampleOptions =
     Inr [makeChangeEntry (exampleLog ! 1) (backfillSeqID exampleSince (exampleLog ! 1)) ''C'',
          makeChangeEntry (exampleLog ! 2) (liveSeqID (exampleLog ! 2)) ''C'']"
  using backfill_pass_emits_iff[of exampleCache "''C''" exampleOptions exampleLog 1 exampleVSB exampleStore]
  by (simp add: exampleCache_def exampleOptions_def exampleSince_def exampleLog_def
      vectorChangesFeed_def exampleStore_def exampleVSB_def isBackfill_def GetSequence_def
      terminatorTaken_def)

text \<open>
  C10. In a backfill pass the first loop removes from the log every entry at or below
  the triggered-by clock for its vbucket, sent or not; no entry sent without triggered-by
  clock is at or below it; and what the feed sends is made of log entries at pairwise
  different positions of the log, so each log entry is sent at most once.
\<close>

theorem log_entry_sent_at_most_once:
  assumes "cache channel opts = Inr log" and "TriggeredByClock (Since opts) = Some t"
  shows "(\<forall>term sent log'.
            sendBackfill VSB (cells h t) (Since opts) channel term log [] = (sent, False, log')
            \<longrightarrow> log' = map (\<lambda>L. if Sequence L \<le> GetSequence (cells h t) (VbNo L) then None else Some L) log) \<and>
         (\<forall>term out. vectorChangesFeed cache VSB h term channel opts = Inr out \<longrightarrow>
            (\<forall>E \<in> set out. TriggeredByClock (Seq_ce E) = None \<longrightarrow>
                 \<not> Seq (Seq_ce E) \<le> GetSequence (cells h t) (vbNo (Seq_ce E))) \<and>
            (\<exists>idxs. distinct idxs \<and> set idxs \<subseteq> {..<length log} \<and>
                 out = map (\<lambda>i. entryOf (cells h t) (Since opts) channel (log ! i)) idxs))"
proof (intro conjI allI impI)
  fix "term" sent log'
  assume "sendBackfill VSB (cells h t) (Since opts) channel term log [] = (sent, False, log')"
  from sendBackfill_prefix[OF this]
  show "log' = map (\<lambda>L. if Sequence L \<le> GetSequence (cells h t) (VbNo L) then None else Some L) log"
    by (simp add: isBackfill_def)
next
  fix "term" out
  assume r: "vectorChangesFeed cache VSB h term channel opts = Inr out"
  let ?bf = "backfillPart VSB (cells h t) (Since opts) channel log"
  let ?lv = "livePart (cells h t) channel log"
  from vectorChangesFeed_prefix[OF assms(1) assms(2) r] obtain n where
    n: "out = take n (?bf @ ?lv)" by blast
  show "\<forall>E \<in> set out. TriggeredByClock (Seq_ce E) = None \<longrightarrow>
                 \<not> Seq (Seq_ce E) \<le> GetSequence (cells h t) (vbNo (Seq_ce E))"
  proof (intro ballI impI)
    fix E assume E: "E \<in> set out" and live: "TriggeredByClock (Seq_ce E) = None"
    from E n have "E \<in> set (?bf @ ?lv)" by (metis in_set_takeD)
    then have "E \<in> set ?bf \<or> E \<in> set ?lv" by simp
    then show "\<not> Seq (Seq_ce E) \<le> GetSequence (cells h t) (vbNo (Seq_ce E))"
    proof
      assume "E \<in> set ?bf"
      with live assms(2) show ?thesis by (auto simp: backfillPart_def backfillSeqID_def)
    next
      assume "E \<in> set ?lv"
      then show ?thesis by (auto simp: livePart_def liveSeqID_def isBackfill_def)
    qed
  qed
  from feed_indices[of log VSB "cells h t" "Since opts" channel] obtain idxs where
    d: "distinct idxs" and s: "set idxs \<subseteq> {..<length log}"
    and e: "?bf @ ?lv = map (\<lambda>i. entryOf (cells h t) (Since opts) channel (log ! i)) idxs"
    by blast
  have "distinct (take n idxs)" using d by simp
  moreover have "set (take n idxs) \<subseteq> {..<length log}" using s by (meson order_trans set_take_subset)
  moreover have "out = map (\<lambda>i. entryOf (cells h t) (Since opts) channel (log ! i)) (take n idxs)"
    using n e by (simp add: take_map)
  ultimately show "\<exists>idxs. distinct idxs \<and> set idxs \<subseteq> {..<length log} \<and>
                 out = map (\<lambda>i. entryOf (cells h t) (Since opts) channel (log ! i)) idxs"
    by blast
qed

theorem log_entry_sent_at_most_once_witness:
  "exampleCache ''C'' exampleOptions = Inr exampleLog \<and>
   TriggeredByClock (Since exampleOptions) = Some 1 \<and>
   sendBackfill exampleVSB (cells exampleStore 1) (Since exampleOptions) ''C'' None exampleLog [] =
     ([makeChangeEntry (exampleLog ! 1) (backfillSeqID exampleSince (exampleLog ! 1)) ''C''], False,
      [None, None, Some (exampleLog ! 2)])"
  using log_entry_sent_at_most_once[of exampleCache "''C''" exampleOptions exampleLog 1 exampleVSB exampleStore]
  by (simp add: exampleCache_def exampleOptions_def exampleSince_def exampleLog_def
      exampleStore_def exampleVSB_def isBackfill_def GetSequence_def
      terminatorTaken_def)

subsection \<open>The clock that the cursor reads\<close>

text \<open>
  C9. When \<^verbatim>\<open>options.Since.TriggeredByClock\<close> is not \<^verbatim>\<open>nil\<close>, \<^verbatim>\<open>getChangesClock\<close> yields
  it, and both cursor reads use it: a backfill starts for a channel exactly when the
  channel is new or the grant sequence is positive and above the triggered-by clock's
  sequence for the grant's vbucket, and the user feed is appended exactly when the user's
  sequence is positive and above the triggered-by clock's sequence for the user's vbucket.
  The live clock \<^verbatim>\<open>options.Since.Clock\<close> does not occur in these conditions.
\<close>

theorem cursor_reads_use_triggered_by_clock:
  assumes "TriggeredByClock (Since opts) = Some t"
      and "allocated h (Clock (Since opts))" and "allocated h (Some t)"
  shows "getChangesClock (Since opts) = Some t \<and>
         (\<exists>s' h'. chanOptsSince h (Since opts) userVbNo added name g = Inr (s', h') \<and>
            ((isNewChannel added name \<or>
               (0 < Sequence_vs g \<and>
                GetSequence (cells h t) (vbAddedAt_of userVbNo g) < Sequence_vs g))
             \<longleftrightarrow> freshCursor h h' t (Sequence_vs g) (vbAddedAt_of userVbNo g) s')) \<and>
         (\<exists>feeds' names'.
            appendVectorUserFeed guest h user feeds names opts userVbNo = Inr (feeds', names') \<and>
            (length feeds' = Suc (length feeds)) =
              (0 < Sequence_u user \<and> GetSequence (cells h t) userVbNo < Sequence_u user) \<and>
            (length feeds' = length feeds) =
              (\<not> (0 < Sequence_u user \<and> GetSequence (cells h t) userVbNo < Sequence_u user)))"
proof -
  have g: "getChangesClock (Since opts) = Some t"
    using assms(1) by (simp add: getChangesClock_def)
  have ip: "(0 < Sequence_vs g \<and>
               GetSequence (cells h t) (vbAddedAt_of userVbNo g) < Sequence_vs g \<and>
               \<not> backfillInProgress h (Since opts) (vbAddedAt_of userVbNo g) (Sequence_vs g)) =
            (0 < Sequence_vs g \<and>
                GetSequence (cells h t) (vbAddedAt_of userVbNo g) < Sequence_vs g)"
    using assms(1) by (auto simp: backfillInProgress_def)
  have a: "allocated h (TriggeredByClock (Since opts))" using assms by simp
  from chanOptsSince_fresh_iff[OF g assms(2) a, of userVbNo added name g]
  have p: "\<exists>s' h'. chanOptsSince h (Since opts) userVbNo added name g = Inr (s', h') \<and>
            ((isNewChannel added name \<or>
               (0 < Sequence_vs g \<and>
                GetSequence (cells h t) (vbAddedAt_of userVbNo g) < Sequence_vs g))
             \<longleftrightarrow> freshCursor h h' t (Sequence_vs g) (vbAddedAt_of userVbNo g) s')"
    unfolding ip .
  have u: "\<exists>feeds' names'.
            appendVectorUserFeed guest h user feeds names opts userVbNo = Inr (feeds', names') \<and>
            (length feeds' = Suc (length feeds)) =
              (0 < Sequence_u user \<and> GetSequence (cells h t) userVbNo < Sequence_u user) \<and>
            (length feeds' = length feeds) =
              (\<not> (0 < Sequence_u user \<and> GetSequence (cells h t) userVbNo < Sequence_u user))"
    using g by (auto simp: appendVectorUserFeed_def Let_def)
  from g p u show ?thesis by blast
qed

theorem cursor_reads_witness:
  "TriggeredByClock (Since exampleOptions) = Some 1 \<and>
   allocated exampleStore (Clock (Since exampleOptions)) \<and>
   allocated exampleStore (Some 1) \<and>
   getChangesClock (Since exampleOptions) = Some 1 \<and>
   GetSequence (cells exampleStore 1) 2 = 10 \<and>
   GetSequence (cells exampleStore 0) 2 = 4 \<and>
   Sequence_u exampleUser = 7 \<and>
   appendVectorUserFeed ''GUEST'' exampleStore exampleUser [] [] exampleOptions 2 = Inr ([], [])"
  using cursor_reads_use_triggered_by_clock[of exampleOptions 1 exampleStore 2 None "''C''"
          exampleGrant "''GUEST''" exampleUser "[]" "[]"]
  by (simp add: exampleOptions_def exampleSince_def exampleStore_def allocated_def
      getChangesClock_def GetSequence_def appendVectorUserFeed_def exampleUser_def Let_def)

subsection \<open>One pass of the merge loop: coalescing\<close>

lemma set_coinciding:
  "set (coinciding minSeq ss) = {c. \<exists>f. (Some c, f) \<in> set ss \<and> Seq_ce c = minSeq}"
  by (induction ss) (auto simp: coinciding_def split: option.splits if_splits)

lemma clearCurrent_slots:
  "clearCurrent minSeq minIdx i ss removed = (ss', removed') \<Longrightarrow> ss' = map (clearSlot minSeq) ss"
  by (induction minSeq minIdx i ss removed arbitrary: ss' removed' rule: clearCurrent.induct)
     (auto simp: Let_def split: prod.splits if_splits)

lemma membersOf_concatRemoved [simp]:
  "membersOf (concatRemoved a b) = membersOf a \<union> membersOf b"
  by (auto simp: membersOf_def concatRemoved_def split: option.splits)

lemma concatRemoved_None [simp]:
  "(concatRemoved a b = None) = (a = None \<and> b = None)"
  by (auto simp: concatRemoved_def split: option.splits)

lemma clearCurrent_removed:
  "clearCurrent minSeq minIdx i ss removed = (ss', removed') \<Longrightarrow>
     membersOf removed' =
       membersOf removed \<union>
       (\<Union>{membersOf (Removed c) | j c f.
            (j, (Some c, f)) \<in> set (enumerate i ss) \<and> j \<noteq> minIdx \<and> Seq_ce c = minSeq}) \<and>
     (removed' = None) =
       (removed = None \<and>
        (\<forall>j c f. (j, (Some c, f)) \<in> set (enumerate i ss) \<and> j \<noteq> minIdx \<and> Seq_ce c = minSeq
            \<longrightarrow> Removed c = None))"
proof (induction minSeq minIdx i ss removed arbitrary: ss' removed' rule: clearCurrent.induct)
  case (1 minSeq minIdx i removed)
  then show ?case by simp
next
  case (2 minSeq minIdx i feed rest removed)
  obtain r1 m1 where r: "clearCurrent minSeq minIdx (Suc i) rest removed = (r1, m1)"
    by (cases "clearCurrent minSeq minIdx (Suc i) rest removed")
  with 2 have eq: "removed' = m1" by simp
  from "2.IH"[OF r] eq show ?case by auto
next
  case (3 minSeq minIdx i cur feed rest removed)
  show ?case
  proof (cases "Seq_ce cur = minSeq")
    case True
    let ?rm = "if i \<noteq> minIdx then concatRemoved removed (Removed cur) else removed"
    obtain r1 m1 where r: "clearCurrent minSeq minIdx (Suc i) rest ?rm = (r1, m1)"
      by (cases "clearCurrent minSeq minIdx (Suc i) rest ?rm")
    with 3 True have eq: "removed' = m1" by (simp add: Let_def)
    have ge: "\<And>j x. (j, x) \<in> set (enumerate (Suc i) rest) \<Longrightarrow> j \<noteq> i"
      by (auto simp: in_set_enumerate_eq)
    have A: "{membersOf (Removed c) | j c f.
            (j, (Some c, f)) \<in> set (enumerate i ((Some cur, feed) # rest)) \<and> j \<noteq> minIdx \<and> Seq_ce c = minSeq}
          = (if i \<noteq> minIdx then {membersOf (Removed cur)} else {}) \<union>
            {membersOf (Removed c) | j c f.
            (j, (Some c, f)) \<in> set (enumerate (Suc i) rest) \<and> j \<noteq> minIdx \<and> Seq_ce c = minSeq}"
      using True by auto
    have B: "(\<forall>j c f. (j, (Some c, f)) \<in> set (enumerate i ((Some cur, feed) # rest)) \<and> j \<noteq> minIdx \<and> Seq_ce c = minSeq
            \<longrightarrow> Removed c = None) =
          ((i \<noteq> minIdx \<longrightarrow> Removed cur = None) \<and>
           (\<forall>j c f. (j, (Some c, f)) \<in> set (enumerate (Suc i) rest) \<and> j \<noteq> minIdx \<and> Seq_ce c = minSeq
            \<longrightarrow> Removed c = None))"
      using True by (simp only: enumerate_simps set_simps insert_iff) blast
    from "3.IH"(1)[OF True refl r] eq show ?thesis
      unfolding A B by (auto split: if_splits)
  next
    case False
    obtain r1 m1 where r: "clearCurrent minSeq minIdx (Suc i) rest removed = (r1, m1)"
      by (cases "clearCurrent minSeq minIdx (Suc i) rest removed")
    with 3 False have eq: "removed' = m1" by simp
    have A: "{membersOf (Removed c) | j c f.
            (j, (Some c, f)) \<in> set (enumerate i ((Some cur, feed) # rest)) \<and> j \<noteq> minIdx \<and> Seq_ce c = minSeq}
          = {membersOf (Removed c) | j c f.
            (j, (Some c, f)) \<in> set (enumerate (Suc i) rest) \<and> j \<noteq> minIdx \<and> Seq_ce c = minSeq}"
      using False by auto
    have B: "(\<forall>j c f. (j, (Some c, f)) \<in> set (enumerate i ((Some cur, feed) # rest)) \<and> j \<noteq> minIdx \<and> Seq_ce c = minSeq
            \<longrightarrow> Removed c = None) =
           (\<forall>j c f. (j, (Some c, f)) \<in> set (enumerate (Suc i) rest) \<and> j \<noteq> minIdx \<and> Seq_ce c = minSeq
            \<longrightarrow> Removed c = None)"
      using False by auto
    from "3.IH"(2)[OF False r] eq show ?thesis
      unfolding A B by auto
  qed
qed

lemma findMin_index:
  "findMin before cs i minSeq acc = (m, Some (j, e)) \<Longrightarrow>
     acc = Some (j, e) \<and> m = minSeq \<or> ((j, Some e) \<in> set (enumerate i cs) \<and> Seq_ce e = m)"
  by (induction before cs i minSeq acc rule: findMin.induct) (auto split: if_splits)

lemma enumerate_map_fst:
  "((j, Some e) \<in> set (enumerate i (map fst ss))) = (\<exists>f. (j, (Some e, f)) \<in> set (enumerate i ss))"
  by (induction ss arbitrary: i) auto

lemma enumerate_unique:
  "(j, x) \<in> set (enumerate i ss) \<Longrightarrow> (j, y) \<in> set (enumerate i ss) \<Longrightarrow> x = y"
  by (metis distinct_enumerate eq_key_imp_eq_value map_fst_enumerate distinct_upt)

lemma enumerate_set_iff: "(\<exists>j. (j, x) \<in> set (enumerate i ss)) = (x \<in> set ss)"
  by (induction ss arbitrary: i) auto

lemma coalesce_removed:
  assumes f: "findMin before (map fst ss) 0 maxSeq None = (minSeq, Some (minIdx, entry))"
      and c: "clearCurrent minSeq minIdx 0 ss (Removed entry) = (ss', removed)"
  shows "membersOf removed = (\<Union>c \<in> set (coinciding minSeq ss). membersOf (Removed c)) \<and>
         (removed = None) = (\<forall>c \<in> set (coinciding minSeq ss). Removed c = None)"
proof -
  from findMin_index[OF f] have "(minIdx, Some entry) \<in> set (enumerate 0 (map fst ss))"
    and sq: "Seq_ce entry = minSeq" by auto
  then obtain f0 where at: "(minIdx, (Some entry, f0)) \<in> set (enumerate 0 ss)"
    by (auto simp: enumerate_map_fst)
  have other: "\<And>j c f. (j, (Some c, f)) \<in> set (enumerate 0 ss) \<Longrightarrow> j = minIdx \<Longrightarrow> c = entry"
    using enumerate_unique[OF at] by auto
  have M: "set (coinciding minSeq ss) =
             insert entry {c. \<exists>j f. (j, (Some c, f)) \<in> set (enumerate 0 ss) \<and> j \<noteq> minIdx \<and> Seq_ce c = minSeq}"
  proof -
    have "set (coinciding minSeq ss) =
            {c. \<exists>j f. (j, (Some c, f)) \<in> set (enumerate 0 ss) \<and> Seq_ce c = minSeq}"
      unfolding set_coinciding using enumerate_set_iff[of _ 0 ss] by blast
    with at sq other show ?thesis by blast
  qed
  from clearCurrent_removed[OF c] have
    1: "membersOf removed =
       membersOf (Removed entry) \<union>
       (\<Union>{membersOf (Removed c) | j c f.
            (j, (Some c, f)) \<in> set (enumerate 0 ss) \<and> j \<noteq> minIdx \<and> Seq_ce c = minSeq})"
    and 2: "(removed = None) =
       (Removed entry = None \<and>
        (\<forall>j c f. (j, (Some c, f)) \<in> set (enumerate 0 ss) \<and> j \<noteq> minIdx \<and> Seq_ce c = minSeq
            \<longrightarrow> Removed c = None))" by blast+
  have "membersOf removed = (\<Union>c \<in> set (coinciding minSeq ss). membersOf (Removed c))"
    unfolding 1 M by blast
  moreover have "(removed = None) = (\<forall>c \<in> set (coinciding minSeq ss). Removed c = None)"
    unfolding 2 M by (simp only: ball_simps mem_Collect_eq) blast
  ultimately show ?thesis by blast
qed

lemma stampClock_keeps:
  "stampClock hash cc h e = Inr (e', h') \<Longrightarrow> Removed e' = Removed e \<and> ID e' = ID e"
  by (auto simp: stampClock_def Let_def alloc_def split: if_splits option.splits prod.splits)

lemma stampClock_ok:
  "TriggeredBy (Seq_ce e) = 0 \<or> TriggeredByClock (Seq_ce e) \<noteq> None \<Longrightarrow>
     \<exists>e' h'. stampClock hash cc h e = Inr (e', h')"
  by (auto simp: stampClock_def Let_def alloc_def split: if_splits option.splits prod.splits)

lemma addDoc_keeps [simp]:
  "Removed (addDocToChangeEntry doc e opts) = Removed e"
  "ID (addDocToChangeEntry doc e opts) = ID e"
  "Seq_ce (addDocToChangeEntry doc e opts) = Seq_ce e"
  by (simp_all add: addDocToChangeEntry_def)

text \<open>
  C7. In a pass of the merge loop that finds a minimum entry and sends it, every current
  entry whose \<^verbatim>\<open>SequenceID\<close> equals the minimum (equality of the whole struct) is cleared
  and nothing else changes in the slots; the entry sent has the id of the minimum entry,
  its removed set is the union of the removed sets of the current entries of that sequence,
  and it is \<^verbatim>\<open>nil\<close> exactly when all of theirs are.
\<close>

theorem equal_sequences_coalesce:
  assumes "findMin before (map fst (map fillCurrent (slots st))) 0 maxSeq None
             = (minSeq, Some (minIdx, entry))"
      and "\<not> terminatorTaken term (length (outputCh st))"
      and "TriggeredBy minSeq = 0 \<or> TriggeredByClock minSeq \<noteq> None"
  shows "slots (stepState (mergeStep before maxSeq hash doc term cc st))
           = map (clearSlot minSeq) (map fillCurrent (slots st)) \<and>
         (\<exists>E. outputCh (stepState (mergeStep before maxSeq hash doc term cc st))
                 = outputCh st @ [Some E] \<and>
              ID E = ID entry \<and>
              membersOf (Removed E) =
                (\<Union>c \<in> set (coinciding minSeq (map fillCurrent (slots st))). membersOf (Removed c)) \<and>
              (Removed E = None) =
                (\<forall>c \<in> set (coinciding minSeq (map fillCurrent (slots st))). Removed c = None))"
proof -
  let ?ss = "map fillCurrent (slots st)"
  obtain ss' removed where c: "clearCurrent minSeq minIdx 0 ?ss (Removed entry) = (ss', removed)"
    by (cases "clearCurrent minSeq minIdx 0 ?ss (Removed entry)")
  from clearCurrent_slots[OF c] have ss': "ss' = map (clearSlot minSeq) ?ss" .
  from findMin_index[OF assms(1)] have sq: "Seq_ce entry = minSeq" by auto
  let ?e1 = "entry\<lparr>Removed := removed\<rparr>"
  let ?e2 = "if IncludeDocs (options st) \<or> Conflicts (options st)
             then addDocToChangeEntry doc ?e1 (options st) else ?e1"
  have "TriggeredBy (Seq_ce ?e2) = 0 \<or> TriggeredByClock (Seq_ce ?e2) \<noteq> None"
    using assms(3) sq by auto
  from stampClock_ok[OF this] obtain e3 h' where s: "stampClock hash cc (store st) ?e2 = Inr (e3, h')"
    by blast
  from stampClock_keeps[OF s] have k: "Removed e3 = removed" "ID e3 = ID entry" by auto
  have out: "outputCh (stepState (mergeStep before maxSeq hash doc term cc st)) = outputCh st @ [Some e3]"
    and sl: "slots (stepState (mergeStep before maxSeq hash doc term cc st)) = ss'"
    using assms(1,2) c s by (auto simp: mergeStep_def stepState_def Let_def)
  from coalesce_removed[OF assms(1) c] k out sl ss' show ?thesis by auto
qed

theorem equal_sequences_coalesce_witness:
  "findMin exampleBefore (map fst (map fillCurrent (slots exampleMergeState))) 0
       exampleMaxSequenceID None
     = (liveSeqID exampleRemoval,
        Some (0, makeChangeEntry exampleRemoval (liveSeqID exampleRemoval) ''A'')) \<and>
   terminatorTaken None (length (outputCh exampleMergeState)) = False \<and>
   TriggeredBy (liveSeqID exampleRemoval) = 0 \<and>
   slots (stepState (mergeStep exampleBefore exampleMaxSequenceID exampleGetHash exampleDocLayer
                       None 0 exampleMergeState)) = [(None, Some []), (None, Some [])] \<and>
   map (map_option Removed)
       (outputCh (stepState (mergeStep exampleBefore exampleMaxSequenceID exampleGetHash
                               exampleDocLayer None 0 exampleMergeState)))
     = [Some (Some {''A'', ''B''})]"
  using equal_sequences_coalesce[of exampleBefore exampleMergeState exampleMaxSequenceID
          "liveSeqID exampleRemoval" 0
          "makeChangeEntry exampleRemoval (liveSeqID exampleRemoval) ''A''" None
          exampleGetHash exampleDocLayer 0]
  by (simp add: exampleMergeState_def exampleBefore_def exampleMaxSequenceID_def liveSeqID_def
      exampleRemoval_def makeChangeEntry_def terminatorTaken_def mergeStep_def stepState_def
      exampleOptions_def stampClock_def Let_def alloc_def update_def concatRemoved_def
      exampleGetHash_def exampleStore_def insert_commute)

subsection \<open>One pass of the merge loop: the clock hash\<close>

text \<open>
  C4, as amended. For a live entry the merger raises the cumulative clock at the entry's
  vbucket to the entry's sequence and gives the entry a new clock that carries only the
  hash of the cumulative clock when the hasher returns one, and no hash when the hasher
  fails. For a backfill entry whose shared triggered-by clock has an empty hashed value
  the merger raises the cumulative clock at \<^verbatim>\<open>TriggeredByVbNo\<close> to \<^verbatim>\<open>TriggeredBy\<close> and, when the
  hasher returns a hash, stores it in the shared clock; when the hashed value is not empty
  the pass changes nothing. A hashed value that is not empty is never changed, so after a
  stamping with a non-empty hash the later backfill entries of the flight leave the
  cumulative clock as it is.
\<close>

theorem clock_stamping:
  assumes "cc < nextRef h"
  shows "(TriggeredBy (Seq_ce e) = 0 \<longrightarrow>
           (\<exists>h'. stampClock hash cc h e =
                    Inr (e\<lparr>Seq_ce := (Seq_ce e)\<lparr>Clock := Some (nextRef h)\<rparr>\<rparr>, h') \<and>
                 cells h' cc = SetMaxSequence (cells h cc) (vbNo (Seq_ce e)) (Seq (Seq_ce e)) \<and>
                 cells h' (nextRef h) =
                   (case hash (cells h' cc) of
                      Inl err \<Rightarrow> NewSequenceClockImpl
                    | Inr clockHash \<Rightarrow> SetHashedValue NewSequenceClockImpl clockHash))) \<and>
         (TriggeredBy (Seq_ce e) \<noteq> 0 \<and> TriggeredByClock (Seq_ce e) = Some t \<and> t \<noteq> cc \<and>
          GetHashedValue (cells h t) = [] \<longrightarrow>
           (\<exists>h'. stampClock hash cc h e = Inr (e, h') \<and>
                 cells h' cc = SetMaxSequence (cells h cc)
                                 (TriggeredByVbNo (Seq_ce e)) (TriggeredBy (Seq_ce e)) \<and>
                 cells h' t =
                   (case hash (cells h' cc) of
                      Inl err \<Rightarrow> cells h t
                    | Inr clockHash \<Rightarrow> SetHashedValue (cells h t) clockHash))) \<and>
         (TriggeredBy (Seq_ce e) \<noteq> 0 \<and> TriggeredByClock (Seq_ce e) = Some t \<and>
          GetHashedValue (cells h t) \<noteq> [] \<longrightarrow>
           stampClock hash cc h e = Inr (e, h)) \<and>
         (\<forall>r e' h'. r < nextRef h \<and> GetHashedValue (cells h r) \<noteq> [] \<and>
              stampClock hash cc h e = Inr (e', h') \<longrightarrow>
              GetHashedValue (cells h' r) = GetHashedValue (cells h r))"
proof (intro conjI impI allI)
  assume "TriggeredBy (Seq_ce e) = 0"
  with assms show "\<exists>h'. stampClock hash cc h e =
                    Inr (e\<lparr>Seq_ce := (Seq_ce e)\<lparr>Clock := Some (nextRef h)\<rparr>\<rparr>, h') \<and>
                 cells h' cc = SetMaxSequence (cells h cc) (vbNo (Seq_ce e)) (Seq (Seq_ce e)) \<and>
                 cells h' (nextRef h) =
                   (case hash (cells h' cc) of
                      Inl err \<Rightarrow> NewSequenceClockImpl
                    | Inr clockHash \<Rightarrow> SetHashedValue NewSequenceClockImpl clockHash)"
    by (auto simp: stampClock_def Let_def alloc_def update_def split: sum.splits)
next
  assume "TriggeredBy (Seq_ce e) \<noteq> 0 \<and> TriggeredByClock (Seq_ce e) = Some t \<and> t \<noteq> cc \<and>
          GetHashedValue (cells h t) = []"
  then show "\<exists>h'. stampClock hash cc h e = Inr (e, h') \<and>
                 cells h' cc = SetMaxSequence (cells h cc)
                                 (TriggeredByVbNo (Seq_ce e)) (TriggeredBy (Seq_ce e)) \<and>
                 cells h' t =
                   (case hash (cells h' cc) of
                      Inl err \<Rightarrow> cells h t
                    | Inr clockHash \<Rightarrow> SetHashedValue (cells h t) clockHash)"
    by (auto simp: stampClock_def Let_def update_def split: sum.splits)
next
  assume "TriggeredBy (Seq_ce e) \<noteq> 0 \<and> TriggeredByClock (Seq_ce e) = Some t \<and>
          GetHashedValue (cells h t) \<noteq> []"
  then show "stampClock hash cc h e = Inr (e, h)"
    by (simp add: stampClock_def)
next
  fix r e' h'
  assume a: "r < nextRef h \<and> GetHashedValue (cells h r) \<noteq> [] \<and>
              stampClock hash cc h e = Inr (e', h')"
  then show "GetHashedValue (cells h' r) = GetHashedValue (cells h r)"
    by (auto simp: stampClock_def Let_def alloc_def update_def GetHashedValue_def
        SetMaxSequence_def SetHashedValue_def split: if_splits option.splits sum.splits)
qed

theorem clock_stamping_witness:
  "(0::nat) < nextRef exampleStore \<and>
   TriggeredBy (Seq_ce exampleBackfillEntry) = 10 \<and>
   TriggeredByClock (Seq_ce exampleBackfillEntry) = Some 1 \<and>
   GetHashedValue (cells exampleStore 1) = [] \<and>
   (case stampClock exampleGetHash 0 exampleStore exampleBackfillEntry of
      Inl err \<Rightarrow> False
    | Inr (e', h') \<Rightarrow>
        e' = exampleBackfillEntry \<and> GetSequence (cells h' 0) 2 = 10 \<and>
        GetHashedValue (cells h' 1) = ''1-abc'' \<and>
        stampClock exampleGetHash 0 h' exampleBackfillEntry = Inr (exampleBackfillEntry, h'))"
  using clock_stamping[where cc = 0 and h = exampleStore and e = exampleBackfillEntry
          and t = 1 and hash = exampleGetHash]
  by (simp add: exampleStore_def exampleBackfillEntry_def exampleLog_def exampleSince_def
      backfillSeqID_def makeChangeEntry_def stampClock_def GetHashedValue_def GetSequence_def
      SetMaxSequence_def SetHashedValue_def update_def exampleGetHash_def Let_def)

text \<open>
  C4 as stated fails when the hasher reports an error: the shared triggered-by clock, whose
  hashed value was empty, is still without hash after the backfill entry, and the new
  clock of a live entry carries no hash.
\<close>

theorem hasher_error_leaves_clock_unstamped:
  "TriggeredBy (Seq_ce exampleBackfillEntry) = 10 \<and>
   TriggeredByClock (Seq_ce exampleBackfillEntry) = Some 1 \<and>
   GetHashedValue (cells exampleStore 1) = [] \<and>
   (case stampClock failingGetHash 0 exampleStore exampleBackfillEntry of
      Inl err \<Rightarrow> False
    | Inr (e', h') \<Rightarrow> GetHashedValue (cells h' 1) = []) \<and>
   (case stampClock failingGetHash 0 exampleStore
           (makeChangeEntry (exampleLog ! 2) (liveSeqID (exampleLog ! 2)) ''C'') of
      Inl err \<Rightarrow> False
    | Inr (e', h') \<Rightarrow>
        (case Clock (Seq_ce e') of
           None \<Rightarrow> False
         | Some c \<Rightarrow> GetHashedValue (cells h' c) = []))"
  by (simp add: exampleStore_def exampleBackfillEntry_def exampleLog_def exampleSince_def
      backfillSeqID_def liveSeqID_def makeChangeEntry_def stampClock_def GetHashedValue_def
      GetSequence_def SetMaxSequence_def SetHashedValue_def update_def alloc_def
      failingGetHash_def NewSequenceClockImpl_def Let_def)

subsection \<open>The order of the merged stream\<close>

lemma pending_fillCurrent [simp]: "pending (fillCurrent s) = pending s"
  by (cases s rule: fillCurrent.cases) (simp_all add: pending_def)

lemma fillCurrent_head:
  "pending (fillCurrent s) = x # xs \<Longrightarrow> fst (fillCurrent s) = Some x"
  by (cases s rule: fillCurrent.cases) (auto simp: pending_def split: option.splits)

lemma pending_clearSlot:
  "pending (clearSlot m s) =
     (case fst s of
        None \<Rightarrow> pending s
      | Some c \<Rightarrow> if Seq_ce c = m then tl (pending s) else pending s)"
  by (cases "(m, s)" rule: clearSlot.cases) (auto simp: pending_def)

lemma findMin_minimal:
  assumes "strictOrder before"
  shows "findMin before cs i mu acc = (m, r) \<Longrightarrow>
           (m = mu \<or> before m mu) \<and> (\<forall>c. Some c \<in> set cs \<longrightarrow> \<not> before (Seq_ce c) m)"
proof (induction cs arbitrary: i mu acc)
  case Nil
  then show ?case by simp
next
  case (Cons x cs)
  from assms have irr: "\<And>a. \<not> before a a"
    and tr: "\<And>a b c. before a b \<Longrightarrow> before b c \<Longrightarrow> before a c"
    unfolding strictOrder_def by blast+
  show ?case
  proof (cases x)
    case None
    with Cons.prems have "findMin before cs (Suc i) mu acc = (m, r)" by simp
    from Cons.IH[OF this] None show ?thesis by simp
  next
    case (Some cur)
    show ?thesis
    proof (cases "before (Seq_ce cur) mu")
      case True
      with Some Cons.prems have "findMin before cs (Suc i) (Seq_ce cur) (Some (i, cur)) = (m, r)"
        by simp
      from Cons.IH[OF this] have 1: "m = Seq_ce cur \<or> before m (Seq_ce cur)"
        and 2: "\<forall>c. Some c \<in> set cs \<longrightarrow> \<not> before (Seq_ce c) m" by blast+
      from 1 True have "m = mu \<or> before m mu" using tr by blast
      moreover from 1 have "\<not> before (Seq_ce cur) m" using irr tr by blast
      ultimately show ?thesis using 2 Some by auto
    next
      case False
      with Some Cons.prems have "findMin before cs (Suc i) mu acc = (m, r)" by simp
      from Cons.IH[OF this] have 1: "m = mu \<or> before m mu"
        and 2: "\<forall>c. Some c \<in> set cs \<longrightarrow> \<not> before (Seq_ce c) m" by blast+
      from 1 False have "\<not> before (Seq_ce cur) m" using tr by blast
      with 1 2 Some show ?thesis by auto
    qed
  qed
qed

lemma stampClock_Seq:
  "stampClock hash cc h e = Inr (e', h') \<Longrightarrow>
     Seq_ce e' = Seq_ce e \<or> (\<exists>c. Seq_ce e' = (Seq_ce e)\<lparr>Clock := c\<rparr>)"
  by (auto simp: stampClock_def Let_def alloc_def split: if_splits option.splits prod.splits)

text \<open>What one pass does to the slots and to the output.\<close>

lemma mergeStep_cases:
  assumes "mergeStep before maxSeq hash doc term cc st = r"
  shows "(outputCh (stepState r) = outputCh st \<and> (\<forall>st1. r \<noteq> Inr st1)) \<or>
         (\<exists>minSeq minIdx entry E.
            findMin before (map fst (map fillCurrent (slots st))) 0 maxSeq None
              = (minSeq, Some (minIdx, entry)) \<and>
            slots (stepState r) = map (clearSlot minSeq) (map fillCurrent (slots st)) \<and>
            outputCh (stepState r) = outputCh st @ [Some E] \<and>
            (Seq_ce E = minSeq \<or> (\<exists>c. Seq_ce E = minSeq\<lparr>Clock := c\<rparr>)))"
proof -
  let ?ss = "map fillCurrent (slots st)"
  obtain minSeq minEntry where f: "findMin before (map fst ?ss) 0 maxSeq None = (minSeq, minEntry)"
    by (cases "findMin before (map fst ?ss) 0 maxSeq None")
  show ?thesis
  proof (cases minEntry)
    case None
    with f assms show ?thesis by (auto simp: mergeStep_def stepState_def Let_def)
  next
    case (Some p)
    obtain minIdx entry where p: "p = (minIdx, entry)" by (cases p)
    from f Some p have f': "findMin before (map fst ?ss) 0 maxSeq None = (minSeq, Some (minIdx, entry))"
      by simp
    from findMin_index[OF f'] have sq: "Seq_ce entry = minSeq" by auto
    obtain ss' removed where c: "clearCurrent minSeq minIdx 0 ?ss (Removed entry) = (ss', removed)"
      by (cases "clearCurrent minSeq minIdx 0 ?ss (Removed entry)")
    from clearCurrent_slots[OF c] have ss': "ss' = map (clearSlot minSeq) ?ss" .
    let ?e1 = "entry\<lparr>Removed := removed\<rparr>"
    let ?e2 = "if IncludeDocs (options st) \<or> Conflicts (options st)
               then addDocToChangeEntry doc ?e1 (options st) else ?e1"
    have s2: "Seq_ce ?e2 = minSeq" using sq by simp
    show ?thesis
    proof (cases "stampClock hash cc (store st) ?e2")
      case (Inl err)
      with f' c assms show ?thesis by (auto simp: mergeStep_def stepState_def Let_def)
    next
      case (Inr q)
      obtain e3 h' where q: "q = (e3, h')" by (cases q)
      from stampClock_Seq[of hash cc "store st" ?e2 e3 h'] Inr q s2
      have s3: "Seq_ce e3 = minSeq \<or> (\<exists>c. Seq_ce e3 = minSeq\<lparr>Clock := c\<rparr>)" by simp
      show ?thesis
      proof (cases "terminatorTaken term (length (outputCh st))")
        case True
        with f' c Inr q assms show ?thesis by (auto simp: mergeStep_def stepState_def Let_def)
      next
        case False
        with f' c Inr q assms have
          "slots (stepState r) = ss'" "outputCh (stepState r) = outputCh st @ [Some e3]"
          by (auto simp: mergeStep_def stepState_def Let_def)
        with f' ss' s3 show ?thesis by blast
      qed
    qed
  qed
qed

lemma successively_tl: "successively P xs \<Longrightarrow> successively P (tl xs)"
  by (cases xs) (auto simp: successively_Cons)

lemma slotsOrdered_step:
  assumes so: "strictOrder before" and ic: "ignoresClock before"
    and inv: "slotsOrdered before prev ss"
    and f: "findMin before (map fst (map fillCurrent ss)) 0 maxSeq None
              = (minSeq, Some (minIdx, entry))"
    and sE: "Seq_ce E = minSeq \<or> (\<exists>c. Seq_ce E = minSeq\<lparr>Clock := c\<rparr>)"
  shows "slotsOrdered before (Some (Seq_ce E)) (map (clearSlot minSeq) (map fillCurrent ss))"
    and "\<forall>m. prev = Some m \<longrightarrow> \<not> before (Seq_ce E) m"
proof -
  have bE: "\<And>a. before a (Seq_ce E) = before a minSeq" "\<And>a. before (Seq_ce E) a = before minSeq a"
    using sE ic unfolding ignoresClock_def by auto
  from findMin_minimal[OF so f] have minimal:
    "\<And>c. Some c \<in> set (map fst (map fillCurrent ss)) \<Longrightarrow> \<not> before (Seq_ce c) minSeq" by blast
  from findMin_index[OF f] have "(minIdx, Some entry) \<in> set (enumerate 0 (map fst (map fillCurrent ss)))"
    and sq: "Seq_ce entry = minSeq" by auto
  then have "Some entry \<in> set (map fst (map fillCurrent ss))"
    by (metis enumerate_set_iff)
  then obtain s0 where s0: "s0 \<in> set ss" "fst (fillCurrent s0) = Some entry" by auto
  then have "pending s0 = entry # tl (pending s0)"
    by (metis pending_fillCurrent pending_def append_Cons list.sel(3) option.simps(5))
  then have "entry \<in> set (take 1 (pending s0))"
    by (metis One_nat_def list.set_intros(1) take_Suc_Cons)
  with inv s0(1) have "\<forall>m. prev = Some m \<longrightarrow> \<not> before (Seq_ce entry) m"
    unfolding slotsOrdered_def by blast
  with sq bE show "\<forall>m. prev = Some m \<longrightarrow> \<not> before (Seq_ce E) m" by simp
  show "slotsOrdered before (Some (Seq_ce E)) (map (clearSlot minSeq) (map fillCurrent ss))"
    unfolding slotsOrdered_def
  proof (intro ballI conjI allI impI)
    fix s2 assume "s2 \<in> set (map (clearSlot minSeq) (map fillCurrent ss))"
    then obtain s where s: "s \<in> set ss" "s2 = clearSlot minSeq (fillCurrent s)" by auto
    from inv s(1) have su: "successively (inOrder before) (pending s)"
      unfolding slotsOrdered_def by blast
    show "successively (inOrder before) (pending s2)"
      using su s(2) by (auto simp: pending_clearSlot successively_tl split: option.splits)
    fix x m assume a: "Some (Seq_ce E) = Some m \<and> x \<in> set (take 1 (pending s2))"
    then have m: "m = Seq_ce E" and x: "x \<in> set (take 1 (pending s2))" by auto
    show "\<not> before (Seq_ce x) m"
    proof (cases "\<exists>c. fst (fillCurrent s) = Some c \<and> Seq_ce c = minSeq")
      case True
      then obtain c where c: "fst (fillCurrent s) = Some c" "Seq_ce c = minSeq" by blast
      then have p: "pending s = c # tl (pending s)"
        by (metis pending_fillCurrent pending_def append_Cons list.sel(3) option.simps(5))
      from c s(2) have "pending s2 = tl (pending s)" by (simp add: pending_clearSlot)
      with x obtain rest where "tl (pending s) = x # rest"
        by (cases "tl (pending s)") auto
      with p have "pending s = c # x # rest" by simp
      with su have "inOrder before c x" by simp
      with c(2) m bE show ?thesis by (simp add: inOrder_def)
    next
      case False
      then have same: "pending s2 = pending s" using s(2)
        by (auto simp: pending_clearSlot split: option.splits)
      with x obtain rest where ps: "pending s = x # rest" by (cases "pending s") auto
      then have "fst (fillCurrent s) = Some x"
        using fillCurrent_head[of s x rest] by simp
      with s(1) have "Some x \<in> set (map fst (map fillCurrent ss))" by force
      from minimal[OF this] m bE show ?thesis by simp
    qed
  qed
qed

lemma mergeLoop_ordered:
  "strictOrder before \<Longrightarrow> ignoresClock before \<Longrightarrow> slotsOrdered before prev (slots st) \<Longrightarrow>
   mergeLoop before maxSeq hash doc term cc st = (ex, st') \<Longrightarrow>
   \<exists>es. outputCh st' = outputCh st @ map Some es \<and> successively (inOrder before) es \<and>
        (\<forall>m x rest. prev = Some m \<and> es = x # rest \<longrightarrow> \<not> before (Seq_ce x) m)"
proof (induction before maxSeq hash doc "term" cc st arbitrary: prev ex st' rule: mergeLoop.induct)
  case (1 before maxSeq hash doc tmn cc st)
  let ?r = "mergeStep before maxSeq hash doc tmn cc st"
  note so = "1.prems"(1) and ic = "1.prems"(2) and inv = "1.prems"(3) and run = "1.prems"(4)
  from mergeStep_cases[OF refl, of before maxSeq hash doc tmn cc st]
  consider (quiet) "outputCh (stepState ?r) = outputCh st" "\<forall>st1. ?r \<noteq> Inr st1"
    | (emit) minSeq minIdx entry E where
        "findMin before (map fst (map fillCurrent (slots st))) 0 maxSeq None
              = (minSeq, Some (minIdx, entry))"
        "slots (stepState ?r) = map (clearSlot minSeq) (map fillCurrent (slots st))"
        "outputCh (stepState ?r) = outputCh st @ [Some E]"
        "Seq_ce E = minSeq \<or> (\<exists>c. Seq_ce E = minSeq\<lparr>Clock := c\<rparr>)"
    by blast
  then show ?case
  proof cases
    case quiet
    then obtain ex0 st0 where r: "?r = Inl (ex0, st0)"
      by (cases ?r) auto
    with run have "st' = st0" by (simp add: mergeLoop.simps[of before maxSeq hash doc tmn cc st])
    with quiet(1) r have "outputCh st' = outputCh st @ map Some []" by (simp add: stepState_def)
    then show ?thesis by (metis list.distinct(1) successively.simps(1))
  next
    case emit
    from slotsOrdered_step[OF so ic inv emit(1) emit(4)] have
      inv': "slotsOrdered before (Some (Seq_ce E)) (map (clearSlot minSeq) (map fillCurrent (slots st)))"
      and first: "\<forall>m. prev = Some m \<longrightarrow> \<not> before (Seq_ce E) m" by blast+
    show ?thesis
    proof (cases ?r)
      case (Inl p)
      obtain ex0 st0 where p: "p = (ex0, st0)" by (cases p)
      with Inl run have "st' = st0" by (simp add: mergeLoop.simps[of before maxSeq hash doc tmn cc st])
      with emit(3) Inl p have "outputCh st' = outputCh st @ map Some [E]" by (simp add: stepState_def)
      moreover have "successively (inOrder before) [E]" by simp
      ultimately show ?thesis using first by blast
    next
      case (Inr st1)
      with run have run1: "mergeLoop before maxSeq hash doc tmn cc st1 = (ex, st')"
        by (simp add: mergeLoop.simps[of before maxSeq hash doc tmn cc st])
      from Inr emit(2) inv' have "slotsOrdered before (Some (Seq_ce E)) (slots st1)"
        by (simp add: stepState_def)
      from "1.IH"[OF Inr so ic this run1] obtain es1 where
        o: "outputCh st' = outputCh st1 @ map Some es1"
        and su: "successively (inOrder before) es1"
        and nx: "\<forall>m x rest. Some (Seq_ce E) = Some m \<and> es1 = x # rest \<longrightarrow> \<not> before (Seq_ce x) m"
        by blast
      from Inr emit(3) o have "outputCh st' = outputCh st @ map Some (E # es1)"
        by (simp add: stepState_def)
      moreover have "successively (inOrder before) (E # es1)"
        using su nx by (cases es1) (auto simp: inOrder_def)
      ultimately show ?thesis using first by blast
    qed
  qed
qed

lemma ascending_tl: "ascending before xs \<Longrightarrow> ascending before (tl xs)"
  by (cases xs) (auto simp: ascending_def)

lemma slotsFresh_step:
  assumes so: "strictOrder before"
    and inv: "slotsFresh before M ss"
    and f: "findMin before (map fst (map fillCurrent ss)) 0 maxSeq None
              = (minSeq, Some (minIdx, entry))"
  shows "slotsFresh before (insert minSeq M) (map (clearSlot minSeq) (map fillCurrent ss))"
    and "minSeq \<notin> M" and "Clock minSeq = None"
proof -
  from so have irr: "\<And>a. \<not> before a a"
    unfolding strictOrder_def by blast
  from findMin_minimal[OF so f] have minimal:
    "\<And>c. Some c \<in> set (map fst (map fillCurrent ss)) \<Longrightarrow> \<not> before (Seq_ce c) minSeq" by blast
  from findMin_index[OF f] have "(minIdx, Some entry) \<in> set (enumerate 0 (map fst (map fillCurrent ss)))"
    and sq: "Seq_ce entry = minSeq" by auto
  then have "Some entry \<in> set (map fst (map fillCurrent ss))"
    by (metis enumerate_set_iff)
  then obtain s0 where s0: "s0 \<in> set ss" "fst (fillCurrent s0) = Some entry" by auto
  then have "pending s0 = entry # tl (pending s0)"
    by (metis pending_fillCurrent pending_def append_Cons list.sel(3) option.simps(5))
  then have "entry \<in> set (pending s0)" by (metis list.set_intros(1))
  with inv s0(1) have "Seq_ce entry \<notin> M" "Clock (Seq_ce entry) = None"
    unfolding slotsFresh_def ascending_def by blast+
  with sq show "minSeq \<notin> M" "Clock minSeq = None" by simp_all
  show "slotsFresh before (insert minSeq M) (map (clearSlot minSeq) (map fillCurrent ss))"
    unfolding slotsFresh_def
  proof (intro ballI conjI)
    fix s2 assume "s2 \<in> set (map (clearSlot minSeq) (map fillCurrent ss))"
    then obtain s where s: "s \<in> set ss" "s2 = clearSlot minSeq (fillCurrent s)" by auto
    from inv s(1) have asc: "ascending before (pending s)"
      and fresh: "\<forall>x \<in> set (pending s). Seq_ce x \<notin> M"
      unfolding slotsFresh_def by blast+
    show "ascending before (pending s2)"
      using asc s(2) by (auto simp: pending_clearSlot ascending_tl split: option.splits)
    fix x assume x: "x \<in> set (pending s2)"
    show "Seq_ce x \<notin> insert minSeq M"
    proof (cases "\<exists>c. fst (fillCurrent s) = Some c \<and> Seq_ce c = minSeq")
      case True
      then obtain c where c: "fst (fillCurrent s) = Some c" "Seq_ce c = minSeq" by blast
      then have p: "pending s = c # tl (pending s)"
        by (metis pending_fillCurrent pending_def append_Cons list.sel(3) option.simps(5))
      from c s(2) have p2: "pending s2 = tl (pending s)" by (simp add: pending_clearSlot)
      with x p have "x \<in> set (pending s)" by (metis list.set_intros(2))
      with fresh have 1: "Seq_ce x \<notin> M" by blast
      from asc p have "\<forall>y \<in> set (tl (pending s)). before (Seq_ce c) (Seq_ce y)"
        unfolding ascending_def by (metis sorted_wrt.simps(2))
      with x p2 c(2) have "before minSeq (Seq_ce x)" by auto
      with irr have "Seq_ce x \<noteq> minSeq" by auto
      with 1 show ?thesis by simp
    next
      case False
      then have same: "pending s2 = pending s" using s(2)
        by (auto simp: pending_clearSlot split: option.splits)
      with x fresh have 1: "Seq_ce x \<notin> M" by auto
      from x same obtain y rest where ps: "pending s = y # rest" by (cases "pending s") auto
      then have hd: "fst (fillCurrent s) = Some y"
        using fillCurrent_head[of s y rest] by simp
      with s(1) have "Some y \<in> set (map fst (map fillCurrent ss))" by force
      from minimal[OF this] have ny: "\<not> before (Seq_ce y) minSeq" .
      from False hd have yn: "Seq_ce y \<noteq> minSeq" by auto
      have "Seq_ce x \<noteq> minSeq"
      proof (cases "x = y")
        case True
        with yn show ?thesis by simp
      next
        case False
        with x same ps have "x \<in> set rest" by auto
        with asc ps have "before (Seq_ce y) (Seq_ce x)"
          unfolding ascending_def by auto
        with ny show ?thesis by auto
      qed
      with 1 show ?thesis by simp
    qed
  qed
qed

lemma sequenceKey_emitted:
  "Clock minSeq = None \<Longrightarrow> Seq_ce E = minSeq \<or> (\<exists>c. Seq_ce E = minSeq\<lparr>Clock := c\<rparr>) \<Longrightarrow>
     sequenceKey E = minSeq"
  by (cases minSeq) (auto simp: sequenceKey_def)

lemma mergeLoop_distinct:
  "strictOrder before \<Longrightarrow> slotsFresh before M (slots st) \<Longrightarrow>
   mergeLoop before maxSeq hash doc term cc st = (ex, st') \<Longrightarrow>
   \<exists>es. outputCh st' = outputCh st @ map Some es \<and> distinct (map sequenceKey es) \<and>
        set (map sequenceKey es) \<inter> M = {}"
proof (induction before maxSeq hash doc "term" cc st arbitrary: M ex st' rule: mergeLoop.induct)
  case (1 before maxSeq hash doc tmn cc st)
  let ?r = "mergeStep before maxSeq hash doc tmn cc st"
  note so = "1.prems"(1) and inv = "1.prems"(2) and run = "1.prems"(3)
  from mergeStep_cases[OF refl, of before maxSeq hash doc tmn cc st]
  consider (quiet) "outputCh (stepState ?r) = outputCh st" "\<forall>st1. ?r \<noteq> Inr st1"
    | (emit) minSeq minIdx entry E where
        "findMin before (map fst (map fillCurrent (slots st))) 0 maxSeq None
              = (minSeq, Some (minIdx, entry))"
        "slots (stepState ?r) = map (clearSlot minSeq) (map fillCurrent (slots st))"
        "outputCh (stepState ?r) = outputCh st @ [Some E]"
        "Seq_ce E = minSeq \<or> (\<exists>c. Seq_ce E = minSeq\<lparr>Clock := c\<rparr>)"
    by blast
  then show ?case
  proof cases
    case quiet
    then obtain ex0 st0 where r: "?r = Inl (ex0, st0)"
      by (cases ?r) auto
    with run have "st' = st0" by (simp add: mergeLoop.simps[of before maxSeq hash doc tmn cc st])
    with quiet(1) r have "outputCh st' = outputCh st @ map Some []" by (simp add: stepState_def)
    then show ?thesis by (metis Int_empty_left distinct.simps(1) list.simps(8) set_empty2)
  next
    case emit
    from slotsFresh_step[OF so inv emit(1)] have
      inv': "slotsFresh before (insert minSeq M) (map (clearSlot minSeq) (map fillCurrent (slots st)))"
      and new: "minSeq \<notin> M" and nc: "Clock minSeq = None" by blast+
    from sequenceKey_emitted[OF nc emit(4)] have key: "sequenceKey E = minSeq" .
    show ?thesis
    proof (cases ?r)
      case (Inl p)
      obtain ex0 st0 where p: "p = (ex0, st0)" by (cases p)
      with Inl run have "st' = st0" by (simp add: mergeLoop.simps[of before maxSeq hash doc tmn cc st])
      with emit(3) Inl p have "outputCh st' = outputCh st @ map Some [E]" by (simp add: stepState_def)
      moreover have "distinct (map sequenceKey [E])" by simp
      moreover have "set (map sequenceKey [E]) \<inter> M = {}" using key new by simp
      ultimately show ?thesis by blast
    next
      case (Inr st1)
      with run have run1: "mergeLoop before maxSeq hash doc tmn cc st1 = (ex, st')"
        by (simp add: mergeLoop.simps[of before maxSeq hash doc tmn cc st])
      from Inr emit(2) inv' have "slotsFresh before (insert minSeq M) (slots st1)"
        by (simp add: stepState_def)
      from "1.IH"[OF Inr so this run1] obtain es1 where
        o: "outputCh st' = outputCh st1 @ map Some es1"
        and d: "distinct (map sequenceKey es1)"
        and m: "set (map sequenceKey es1) \<inter> insert minSeq M = {}"
        by blast
      from Inr emit(3) o have "outputCh st' = outputCh st @ map Some (E # es1)"
        by (simp add: stepState_def)
      moreover have "distinct (map sequenceKey (E # es1))"
        using d m key by auto
      moreover have "set (map sequenceKey (E # es1)) \<inter> M = {}"
        using m key new by auto
      ultimately show ?thesis by blast
    qed
  qed
qed

text \<open>
  C1. When \<open>Before\<close> is a strict order that does not read the clock pointer and every feed
  delivers its entries in order, the merge loop sends entries only, and for two successive
  entries \<open>E1\<close>, \<open>E2\<close> it has sent, \<open>E2.Seq\<close> is not before \<open>E1.Seq\<close>. When moreover every feed
  is strictly ascending and its entries have no clock yet, no two entries sent have the
  same sequence identifier: entries of the same sequence on several feeds are sent once.
\<close>

theorem merged_stream_sorted:
  assumes "strictOrder before" and "ignoresClock before"
      and "feedsOrdered before feeds"
      and "mergeLoop before maxSeq hash doc term cc (startMerge feeds h opts out0) = (ex, st')"
  shows "\<exists>es. outputCh st' = out0 @ map Some es \<and> successively (inOrder before) es \<and>
              (feedsAscending before feeds \<longrightarrow> distinct (map sequenceKey es))"
proof -
  have p: "\<And>feed. pending (None, Some feed) = feed" by (simp add: pending_def)
  have "slotsOrdered before None (slots (startMerge feeds h opts out0))"
    using assms(3) by (auto simp: slotsOrdered_def feedsOrdered_def startMerge_def p)
  from mergeLoop_ordered[OF assms(1) assms(2) this assms(4)] obtain es where
    o: "outputCh st' = out0 @ map Some es" and s: "successively (inOrder before) es"
    by (auto simp: startMerge_def)
  have "feedsAscending before feeds \<longrightarrow> distinct (map sequenceKey es)"
  proof
    assume "feedsAscending before feeds"
    then have "slotsFresh before {} (slots (startMerge feeds h opts out0))"
      by (auto simp: slotsFresh_def feedsAscending_def startMerge_def p)
    from mergeLoop_distinct[OF assms(1) this assms(4)] obtain es' where
      o': "outputCh st' = out0 @ map Some es'" and d: "distinct (map sequenceKey es')"
      by (auto simp: startMerge_def)
    from o o' have "map Some es = map Some es'" by simp
    then have "es = es'" by (simp add: inj_map_eq_map)
    with d show "distinct (map sequenceKey es)" by simp
  qed
  with o s show ?thesis by blast
qed

lemma exampleBefore_strictOrder: "strictOrder exampleBefore"
  unfolding strictOrder_def exampleBefore_def by auto

lemma exampleBefore_ignoresClock: "ignoresClock exampleBefore"
  unfolding ignoresClock_def exampleBefore_def by simp

lemma exampleFeeds_ascending: "feedsAscending exampleBefore exampleFeeds"
  unfolding feedsAscending_def ascending_def exampleFeeds_def by (simp add: makeChangeEntry_def)

lemma exampleFeeds_ordered: "feedsOrdered exampleBefore exampleFeeds"
  unfolding feedsOrdered_def exampleFeeds_def by simp

theorem merged_stream_sorted_witness:
  "strictOrder exampleBefore \<and> ignoresClock exampleBefore \<and>
   feedsOrdered exampleBefore exampleFeeds \<and> feedsAscending exampleBefore exampleFeeds \<and>
   map (map_option ID)
     (outputCh (snd (mergeLoop exampleBefore exampleMaxSequenceID exampleGetHash exampleDocLayer
                       None 0 (startMerge exampleFeeds exampleStore plainOptions []))))
     = [Some ''y'', Some ''x''] \<and>
   (\<exists>es. outputCh (snd (mergeLoop exampleBefore exampleMaxSequenceID exampleGetHash
                          exampleDocLayer None 0
                          (startMerge exampleFeeds exampleStore plainOptions [])))
           = map Some es \<and>
         successively (inOrder exampleBefore) es \<and> distinct (map sequenceKey es))"
proof -
  have run: "map (map_option ID)
     (outputCh (snd (mergeLoop exampleBefore exampleMaxSequenceID exampleGetHash exampleDocLayer
                       None 0 (startMerge exampleFeeds exampleStore plainOptions []))))
     = [Some ''y'', Some ''x'']"
    by code_simp
  from merged_stream_sorted[OF exampleBefore_strictOrder exampleBefore_ignoresClock
         exampleFeeds_ordered surjective_pairing,
         of exampleMaxSequenceID exampleGetHash exampleDocLayer None 0 exampleStore plainOptions "[]"]
       exampleFeeds_ascending
  have "\<exists>es. outputCh (snd (mergeLoop exampleBefore exampleMaxSequenceID exampleGetHash
                          exampleDocLayer None 0
                          (startMerge exampleFeeds exampleStore plainOptions [])))
           = map Some es \<and>
         successively (inOrder exampleBefore) es \<and> distinct (map sequenceKey es)"
    by auto
  with run exampleBefore_strictOrder exampleBefore_ignoresClock exampleFeeds_ordered
       exampleFeeds_ascending
  show ?thesis by blast
qed

subsection \<open>The limit\<close>

lemma addDoc_withLimit [simp]:
  "addDocToChangeEntry doc e (opts\<lparr>Limit := n\<rparr>) = addDocToChangeEntry doc e opts"
  by (simp add: addDocToChangeEntry_def)

lemma mergeStep_unlimited_Inl:
  assumes "Limit (options st) = 0"
      and "mergeStep before maxSeq hash doc term cc st = Inl (ex, s0)"
  shows "mergeStep before maxSeq hash doc term cc (withLimit st n) = Inl (ex, withLimit s0 n) \<and>
         outputCh s0 = outputCh st \<and> ex \<noteq> LimitReached \<and> Limit (options s0) = 0"
  using assms unfolding mergeStep_def Let_def withLimit_def
  by (auto split: prod.splits option.splits sum.splits if_splits)

lemma mergeStep_unlimited_Inr:
  assumes "Limit (options st) = 0"
      and "mergeStep before maxSeq hash doc term cc st = Inr s1"
  shows "\<exists>E. outputCh s1 = outputCh st @ [Some E] \<and> Limit (options s1) = 0 \<and>
           (\<forall>n. 1 < n \<longrightarrow> mergeStep before maxSeq hash doc term cc (withLimit st n)
                              = Inr (withLimit s1 (n - 1))) \<and>
           (\<exists>s'. mergeStep before maxSeq hash doc term cc (withLimit st 1) = Inl (LimitReached, s') \<and>
                 outputCh s' = outputCh s1 \<and> Limit (options s') = 0)"
  using assms unfolding mergeStep_def Let_def withLimit_def setSinceClock_def
  by (auto split: prod.splits option.splits sum.splits if_splits)

lemma mergeLoop_Inl:
  "mergeStep before maxSeq hash doc term cc st = Inl d \<Longrightarrow>
     mergeLoop before maxSeq hash doc term cc st = d"
  by (simp add: mergeLoop.simps[of before maxSeq hash doc "term" cc st])

lemma mergeLoop_Inr:
  "mergeStep before maxSeq hash doc term cc st = Inr st1 \<Longrightarrow>
     mergeLoop before maxSeq hash doc term cc st = mergeLoop before maxSeq hash doc term cc st1"
  by (simp add: mergeLoop.simps[of before maxSeq hash doc "term" cc st])

lemma mergeLoop_extends:
  "mergeLoop before maxSeq hash doc term cc st = (ex, st') \<Longrightarrow>
     \<exists>es. outputCh st' = outputCh st @ es"
proof (induction before maxSeq hash doc "term" cc st arbitrary: ex st' rule: mergeLoop.induct)
  case (1 before maxSeq hash doc tmn cc st)
  show ?case
  proof (cases "mergeStep before maxSeq hash doc tmn cc st")
    case (Inl d)
    with "1.prems" have d: "d = (ex, st')" by (simp add: mergeLoop_Inl)
    from mergeStep_cases[OF Inl] d show ?thesis by (auto simp: stepState_def)
  next
    case (Inr st1)
    with "1.prems" have "mergeLoop before maxSeq hash doc tmn cc st1 = (ex, st')"
      by (simp add: mergeLoop_Inr)
    from "1.IH"[OF Inr this] obtain es where "outputCh st' = outputCh st1 @ es" by blast
    moreover from mergeStep_cases[OF Inr] obtain E where "outputCh st1 = outputCh st @ [Some E]"
      by (auto simp: stepState_def)
    ultimately show ?thesis by simp
  qed
qed

lemma mergeLoop_limit:
  "Limit (options st) = 0 \<Longrightarrow> 0 < n \<Longrightarrow>
   mergeLoop before maxSeq hash doc term cc st = (ex0, s0) \<Longrightarrow>
   mergeLoop before maxSeq hash doc term cc (withLimit st n) = (exn, sn) \<Longrightarrow>
     outputCh sn = outputCh st @ take n (sentBy st s0) \<and>
     (exn = LimitReached) = (n \<le> length (sentBy st s0)) \<and>
     Limit (options sn) = n - length (sentBy st s0)"
proof (induction before maxSeq hash doc "term" cc st arbitrary: n ex0 s0 exn sn rule: mergeLoop.induct)
  case (1 before maxSeq hash doc tmn cc st)
  note lim = "1.prems"(1) and pos = "1.prems"(2) and run0 = "1.prems"(3) and runn = "1.prems"(4)
  show ?case
  proof (cases "mergeStep before maxSeq hash doc tmn cc st")
    case (Inl d)
    with run0 have d: "d = (ex0, s0)" by (simp add: mergeLoop_Inl)
    from mergeStep_unlimited_Inl[OF lim Inl[unfolded d], of n] have
      stepn: "mergeStep before maxSeq hash doc tmn cc (withLimit st n) = Inl (ex0, withLimit s0 n)"
      and same: "outputCh s0 = outputCh st" and nl: "ex0 \<noteq> LimitReached" by blast+
    from stepn runn have "exn = ex0" "sn = withLimit s0 n" by (simp_all add: mergeLoop_Inl)
    with same nl pos show ?thesis by (simp add: sentBy_def withLimit_def)
  next
    case (Inr s1)
    with run0 have run1: "mergeLoop before maxSeq hash doc tmn cc s1 = (ex0, s0)"
      by (simp add: mergeLoop_Inr)
    from mergeStep_unlimited_Inr[OF lim Inr] obtain E s' where
      o1: "outputCh s1 = outputCh st @ [Some E]" and l1: "Limit (options s1) = 0"
      and big: "\<forall>k. 1 < k \<longrightarrow> mergeStep before maxSeq hash doc tmn cc (withLimit st k)
                              = Inr (withLimit s1 (k - 1))"
      and one: "mergeStep before maxSeq hash doc tmn cc (withLimit st 1) = Inl (LimitReached, s')"
               "outputCh s' = outputCh s1" "Limit (options s') = 0"
      by blast
    from mergeLoop_extends[OF run1] obtain es where es: "outputCh s0 = outputCh s1 @ es" by blast
    with o1 have sent0: "sentBy st s0 = Some E # es" and sent1: "sentBy s1 s0 = es"
      by (simp_all add: sentBy_def)
    show ?thesis
    proof (cases "n = 1")
      case True
      with one(1) runn have "exn = LimitReached" "sn = s'" by (simp_all add: mergeLoop_Inl)
      with one(2,3) o1 sent0 True show ?thesis by simp
    next
      case False
      with pos have n1: "1 < n" "0 < n - 1" by simp_all
      with big have "mergeStep before maxSeq hash doc tmn cc (withLimit st n)
                              = Inr (withLimit s1 (n - 1))" by blast
      with runn have runn1: "mergeLoop before maxSeq hash doc tmn cc (withLimit s1 (n - 1)) = (exn, sn)"
        by (simp add: mergeLoop_Inr)
      from "1.IH"[OF Inr l1 n1(2) run1 runn1] sent1 have
        "outputCh sn = outputCh s1 @ take (n - 1) es"
        "(exn = LimitReached) = (n - 1 \<le> length es)"
        "Limit (options sn) = n - 1 - length es" by simp_all
      with o1 sent0 n1 show ?thesis by (auto simp: take_Cons')
    qed
  qed
qed

lemma mergeLoop_limit_take:
  assumes "0 < n"
      and "mergeLoop before maxSeq hash doc term cc (withLimit st 0) = (ex0, s0)"
      and "mergeLoop before maxSeq hash doc term cc (withLimit st n) = (exn, sn)"
  shows "outputCh sn = outputCh st @ take n (sentBy st s0) \<and>
         length (sentBy st sn) = min n (length (sentBy st s0)) \<and>
         (exn = LimitReached) = (n \<le> length (sentBy st s0)) \<and>
         Limit (options sn) = n - length (sentBy st sn)"
proof -
  have w: "withLimit (withLimit st 0) n = withLimit st n" by (simp add: withLimit_def)
  have l: "Limit (options (withLimit st 0)) = 0" by (simp add: withLimit_def)
  have o: "outputCh (withLimit st 0) = outputCh st" by (simp add: withLimit_def)
  from mergeLoop_limit[OF l assms(1) assms(2) assms(3)[folded w]]
  have 1: "outputCh sn = outputCh st @ take n (sentBy st s0)"
    and 2: "(exn = LimitReached) = (n \<le> length (sentBy st s0))"
    and 3: "Limit (options sn) = n - length (sentBy st s0)"
    by (simp_all add: sentBy_def o)
  from 1 have 4: "sentBy st sn = take n (sentBy st s0)" by (simp add: sentBy_def)
  then have 5: "length (sentBy st sn) = min n (length (sentBy st s0))" by (simp add: min.commute)
  from 3 5 have "Limit (options sn) = n - length (sentBy st sn)" by (auto simp: min_def)
  with 1 2 5 show ?thesis by blast
qed

text \<open>The limit over the whole stream.\<close>

lemma mergeLoop_sends_entries:
  "mergeLoop before maxSeq hash doc terminator cc st = (ex, st') \<Longrightarrow>
     \<exists>es. outputCh st' = outputCh st @ map Some es"
proof (induction before maxSeq hash doc terminator cc st arbitrary: ex st' rule: mergeLoop.induct)
  case (1 before maxSeq hash doc tmn cc st)
  show ?case
  proof (cases "mergeStep before maxSeq hash doc tmn cc st")
    case (Inl d)
    with "1.prems" have d: "d = (ex, st')" by (simp add: mergeLoop_Inl)
    from mergeStep_cases[OF Inl] d have
      "outputCh st' = outputCh st @ map Some [] \<or> (\<exists>E. outputCh st' = outputCh st @ map Some [E])"
      by (auto simp: stepState_def)
    then show ?thesis by blast
  next
    case (Inr st1)
    with "1.prems" have "mergeLoop before maxSeq hash doc tmn cc st1 = (ex, st')"
      by (simp add: mergeLoop_Inr)
    from "1.IH"[OF Inr this] obtain es where "outputCh st' = outputCh st1 @ map Some es" by blast
    moreover from mergeStep_cases[OF Inr] obtain E where "outputCh st1 = outputCh st @ [Some E]"
      by (auto simp: stepState_def)
    ultimately have "outputCh st' = outputCh st @ map Some (E # es)" by simp
    then show ?thesis by blast
  qed
qed

lemma mergeLoop_count:
  assumes "0 < Limit (options st)"
      and "mergeLoop before maxSeq hash doc terminator cc st = (ex, st')"
  shows "\<exists>es. outputCh st' = outputCh st @ map Some es \<and>
              Limit (options st') + length es = Limit (options st) \<and>
              (ex = LimitReached) = (Limit (options st') = 0)"
proof -
  let ?l = "Limit (options st)"
  obtain ex0 s0 where run0: "mergeLoop before maxSeq hash doc terminator cc (withLimit st 0) = (ex0, s0)"
    by (cases "mergeLoop before maxSeq hash doc terminator cc (withLimit st 0)")
  have w: "withLimit (withLimit st 0) ?l = st" by (simp add: withLimit_def)
  have l0: "Limit (options (withLimit st 0)) = 0" by (simp add: withLimit_def)
  have o: "outputCh (withLimit st 0) = outputCh st" by (simp add: withLimit_def)
  have run: "mergeLoop before maxSeq hash doc terminator cc (withLimit (withLimit st 0) ?l) = (ex, st')"
    using assms(2) by (simp only: w)
  from mergeLoop_limit[OF l0 assms(1) run0 run]
  have 1: "outputCh st' = outputCh st @ take ?l (sentBy st s0)"
    and 2: "(ex = LimitReached) = (?l \<le> length (sentBy st s0))"
    and 3: "Limit (options st') = ?l - length (sentBy st s0)"
    by (simp_all add: sentBy_def o)
  from mergeLoop_sends_entries[OF run0] obtain es0 where "outputCh s0 = outputCh st @ map Some es0"
    by (auto simp: o)
  then have s: "sentBy st s0 = map Some es0" by (simp add: sentBy_def)
  have a: "outputCh st' = outputCh st @ map Some (take ?l es0)" using 1 s by (simp add: take_map)
  have b: "Limit (options st') + length (take ?l es0) = ?l" using 3 s by (auto simp: min_def)
  have c: "(ex = LimitReached) = (Limit (options st') = 0)" using 2 3 by auto
  show ?thesis
    by (rule exI[of _ "take ?l es0"]) (use a b c in simp)
qed

lemma entriesSent_append [simp]: "entriesSent (xs @ ys) = entriesSent xs + entriesSent ys"
  by (simp add: entriesSent_def)

lemma entriesSent_Some [simp]: "entriesSent (map Some es) = length es"
  by (induction es) (simp_all add: entriesSent_def)

lemma entriesSent_simps [simp]:
  "entriesSent [] = 0" "entriesSent (None # xs) = entriesSent xs"
  "entriesSent (Some e # xs) = Suc (entriesSent xs)"
  by (simp_all add: entriesSent_def)

lemma startFeeds_stopped:
  "startFeeds ext env opts u added channels h feeds = Inl stopped \<Longrightarrow>
     stopped = Panic \<or> (\<exists>err. stopped = FeedError err)"
  by (induction ext env opts u added channels h feeds rule: startFeeds.induct)
     (auto split: sum.splits prod.splits)

lemma startMerge_fields [simp]:
  "outputCh (startMerge feeds h opts out) = out"
  "options (startMerge feeds h opts out) = opts"
  by (simp_all add: startMerge_def)

lemma outerLoop_started:
  assumes "startFeeds ext env (options_o st) u (addedChannels st) (channelsSince env chans)
               (store_o st) [] = Inr (feeds, h)"
      and "(case dbUser env of
                 None \<Rightarrow> Inr (feeds, [])
               | Some user \<Rightarrow>
                   appendVectorUserFeed (GuestUsername ext) h user feeds [] (options_o st) u)
             = Inr (feeds', names)"
      and "mergeLoop (Before ext) (MaxSequenceID ext) (GetHash ext) (docLayer ext) terminator cc
           (startMerge feeds' h (options_o st) (output_o st)) = (ex, ms)"
  shows "outerLoop ext terminator chans u waiter cc (env # envs) st =
           (case ex of
              Terminated \<Rightarrow> Some (TerminatorFired, outputCh ms)
            | Panicked \<Rightarrow> Some (Panic, outputCh ms)
            | LimitReached \<Rightarrow> Some (LimitHit, outputCh ms)
            | Exhausted \<Rightarrow>
                if \<not> Continuous (options ms) \<and> (sentSomething ms \<or> \<not> waiter)
                then Some (Finished, outputCh ms)
                else if \<not> waiter then Some (Panic, outputCh ms @ [None])
                else if \<not> waitResult env then Some (WaiterClosed, outputCh ms @ [None])
                else if terminatedAfterWait env then Some (TerminatorFired, outputCh ms @ [None])
                else
                  (case checkForUserUpdates env (userChangeCount st) of
                     Inl err \<Rightarrow>
                       Some (UserReloadFailed,
                             outputCh ms @ [None,
                               Some (makeErrorEntry
                                 ''User not found during reload - terminating changes feed'')])
                   | Inr (count, added) \<Rightarrow>
                       outerLoop ext terminator chans u waiter cc envs
                         \<lparr>store_o = store ms, options_o = options ms,
                          output_o = outputCh ms @ [None], userChangeCount = count,
                          addedChannels = added\<rparr>))"
  using assms by (simp split: exit.splits)

lemma outerLoop_failed:
  "startFeeds ext env (options_o st) u (addedChannels st) (channelsSince env chans)
               (store_o st) [] = Inl stopped \<Longrightarrow>
   outerLoop ext terminator chans u waiter cc (env # envs) st = Some (stopped, output_o st)"
  by simp

lemma outerLoop_user_failed:
  "startFeeds ext env (options_o st) u (addedChannels st) (channelsSince env chans)
               (store_o st) [] = Inr (feeds, h) \<Longrightarrow>
   (case dbUser env of
                 None \<Rightarrow> Inr (feeds, [])
               | Some user \<Rightarrow>
                   appendVectorUserFeed (GuestUsername ext) h user feeds [] (options_o st) u)
             = Inl err \<Longrightarrow>
   outerLoop ext terminator chans u waiter cc (env # envs) st = Some (Panic, output_o st)"
  by simp

lemma outerLoop_limit:
  "0 < Limit (options_o st) \<Longrightarrow>
   outerLoop ext terminator chans u waiter cc envs st = Some (e, out) \<Longrightarrow>
     changesSent e out \<le> entriesSent (output_o st) + Limit (options_o st) \<and>
     (e = LimitHit) = (changesSent e out = entriesSent (output_o st) + Limit (options_o st))"
proof (induction envs arbitrary: st)
  case Nil
  then show ?case by simp
next
  case (Cons env envs)
  note pos = Cons.prems(1) and res = Cons.prems(2)
  let ?sf = "startFeeds ext env (options_o st) u (addedChannels st) (channelsSince env chans)
               (store_o st) []"
  show ?case
  proof (cases ?sf)
    case (Inl stopped)
    from res[unfolded outerLoop_failed[OF Inl]] have eo: "e = stopped" "out = output_o st"
      by simp_all
    from startFeeds_stopped[OF Inl] eo pos show ?thesis by (auto simp: changesSent_def)
  next
    case (Inr p)
    obtain feeds h where p: "p = (feeds, h)" by (cases p)
    note sf = Inr[unfolded p]
    let ?uf = "case dbUser env of
                 None \<Rightarrow> Inr (feeds, [])
               | Some user \<Rightarrow>
                   appendVectorUserFeed (GuestUsername ext) h user feeds [] (options_o st) u"
    show ?thesis
    proof (cases ?uf)
      case (Inl err)
      from res[unfolded outerLoop_user_failed[OF sf Inl]] have "e = Panic" "out = output_o st"
        by simp_all
      with pos show ?thesis by (simp add: changesSent_def)
    next
      case uf: (Inr q)
      obtain feeds' names where q: "q = (feeds', names)" by (cases q)
      note uf' = uf[unfolded q]
      obtain ex ms where run:
        "mergeLoop (Before ext) (MaxSequenceID ext) (GetHash ext) (docLayer ext) terminator cc
           (startMerge feeds' h (options_o st) (output_o st)) = (ex, ms)"
        by (cases "mergeLoop (Before ext) (MaxSequenceID ext) (GetHash ext) (docLayer ext)
                     terminator cc (startMerge feeds' h (options_o st) (output_o st))")
      have "0 < Limit (options (startMerge feeds' h (options_o st) (output_o st)))"
        using pos by simp
      from mergeLoop_count[OF this run] obtain es where
        o: "outputCh ms = output_o st @ map Some es"
        and l: "Limit (options ms) + length es = Limit (options_o st)"
        and x: "(ex = LimitReached) = (Limit (options ms) = 0)" by auto
      note unfolded = res[unfolded outerLoop_started[OF sf uf' run]]
      show ?thesis
      proof (cases ex)
        case Exhausted
        with x have lp: "0 < Limit (options ms)" by simp
        show ?thesis
        proof (cases "\<not> Continuous (options ms) \<and> (sentSomething ms \<or> \<not> waiter)")
          case True
          with unfolded Exhausted have "e = Finished" "out = outputCh ms" by simp_all
          with o l lp show ?thesis by (simp add: changesSent_def)
        next
          case c1: False
          show ?thesis
          proof (cases "\<not> waiter \<or> \<not> waitResult env \<or> terminatedAfterWait env")
            case True
            with unfolded Exhausted c1 have
              "e \<noteq> LimitHit" "e \<noteq> UserReloadFailed" "out = outputCh ms @ [None]"
              by (auto split: if_splits)
            with o l lp show ?thesis by (simp add: changesSent_def)
          next
            case c2: False
            show ?thesis
            proof (cases "checkForUserUpdates env (userChangeCount st)")
              case (Inl err)
              with unfolded Exhausted c1 c2 have "e = UserReloadFailed"
                "out = outputCh ms @ [None, Some (makeErrorEntry
                       ''User not found during reload - terminating changes feed'')]"
                by simp_all
              with o l lp show ?thesis by (simp add: changesSent_def)
            next
              case (Inr ca)
              obtain count added where ca: "ca = (count, added)" by (cases ca)
              let ?st1 = "\<lparr>store_o = store ms, options_o = options ms,
                            output_o = outputCh ms @ [None], userChangeCount = count,
                            addedChannels = added\<rparr>"
              from unfolded Exhausted c1 c2 Inr ca have again:
                "outerLoop ext terminator chans u waiter cc envs ?st1 = Some (e, out)"
                by simp
              have "0 < Limit (options_o ?st1)" using lp by simp
              from Cons.IH[OF this again] have
                "changesSent e out \<le> entriesSent (output_o ?st1) + Limit (options_o ?st1)"
                "(e = LimitHit) =
                   (changesSent e out = entriesSent (output_o ?st1) + Limit (options_o ?st1))"
                by blast+
              moreover have "entriesSent (output_o ?st1) + Limit (options_o ?st1)
                               = entriesSent (output_o st) + Limit (options_o st)"
                using o l by simp
              ultimately show ?thesis by simp
            qed
          qed
        qed
      next
        case LimitReached
        with unfolded have "e = LimitHit" "out = outputCh ms" by simp_all
        with o l x LimitReached show ?thesis by (simp add: changesSent_def)
      next
        case Terminated
        with unfolded have "e = TerminatorFired" "out = outputCh ms" by simp_all
        with o l x Terminated show ?thesis by (simp add: changesSent_def)
      next
        case Panicked
        with unfolded have "e = Panic" "out = outputCh ms" by simp_all
        with o l x Panicked show ?thesis by (simp add: changesSent_def)
      qed
    qed
  qed
qed

lemma VectorMultiChangesFeed_limit:
  assumes "0 < Limit opts"
      and "fst (VectorMultiChangesFeed ext terminator user envs h chans opts) = Some (e, out)"
  shows "changesSent e out \<le> Limit opts \<and> (e = LimitHit) = (changesSent e out = Limit opts)"
proof (cases "getChangesClock (Since opts)")
  case None
  with assms have "e = Panic" "out = []" by (simp_all add: VectorMultiChangesFeed_def)
  with assms(1) show ?thesis by (simp add: changesSent_def)
next
  case (Some cr)
  let ?u = "case user of None \<Rightarrow> 0
            | Some u \<Rightarrow> if Name u \<noteq> [] then ucast (VBHash ext (DocID_u u)) else 0"
  let ?st = "\<lparr>store_o = snd (alloc h (Copy (cells h cr))), options_o = opts, output_o = [],
               userChangeCount = (if Wait opts then CurrentUserCount ext else 0),
               addedChannels = None\<rparr>"
  from assms(2) Some have
    "outerLoop ext terminator chans ?u (Wait opts) (fst (alloc h (Copy (cells h cr)))) envs ?st
       = Some (e, out)"
    by (simp add: VectorMultiChangesFeed_def Let_def split_beta)
  from outerLoop_limit[OF _ this] assms(1) show ?thesis by simp
qed

text \<open>
  C8. With a limit \<open>n > 0\<close> the merge loop sends the first \<open>n\<close> of the entries that it
  sends without limit, so their number is the minimum of \<open>n\<close> and the number available;
  it leaves through \<^verbatim>\<open>break outer\<close> exactly when \<open>n\<close> entries were available, and the limit
  left in the options is \<open>n\<close> less the number of entries sent. Over the whole stream, the
  entries that are neither \<^verbatim>\<open>nil\<close> nor the error entry are at most \<open>n\<close>, and they are
  \<open>n\<close> exactly when the producer stops because of the limit.
\<close>

theorem limit_honoured:
  assumes "0 < n"
  shows "(mergeLoop before maxSeq hash doc terminator cc (withLimit st 0) = (ex0, s0) \<and>
          mergeLoop before maxSeq hash doc terminator cc (withLimit st n) = (exn, sn) \<longrightarrow>
            outputCh sn = outputCh st @ take n (sentBy st s0) \<and>
            length (sentBy st sn) = min n (length (sentBy st s0)) \<and>
            (exn = LimitReached) = (n \<le> length (sentBy st s0)) \<and>
            Limit (options sn) = n - length (sentBy st sn)) \<and>
         (Limit opts = n \<and>
          fst (VectorMultiChangesFeed ext terminator1 user envs h chans opts) = Some (e, out) \<longrightarrow>
            changesSent e out \<le> n \<and> (e = LimitHit) = (changesSent e out = n))"
proof (intro conjI impI)
  assume a: "mergeLoop before maxSeq hash doc terminator cc (withLimit st 0) = (ex0, s0) \<and>
          mergeLoop before maxSeq hash doc terminator cc (withLimit st n) = (exn, sn)"
  then have r0: "mergeLoop before maxSeq hash doc terminator cc (withLimit st 0) = (ex0, s0)"
    and rn: "mergeLoop before maxSeq hash doc terminator cc (withLimit st n) = (exn, sn)"
    by simp_all
  from mergeLoop_limit_take[OF assms r0 rn]
  show "outputCh sn = outputCh st @ take n (sentBy st s0)"
    and "length (sentBy st sn) = min n (length (sentBy st s0))"
    and "(exn = LimitReached) = (n \<le> length (sentBy st s0))"
    and "Limit (options sn) = n - length (sentBy st sn)"
    by simp_all
next
  assume b: "Limit opts = n \<and>
          fst (VectorMultiChangesFeed ext terminator1 user envs h chans opts) = Some (e, out)"
  then have "0 < Limit opts"
    and "fst (VectorMultiChangesFeed ext terminator1 user envs h chans opts) = Some (e, out)"
    using assms by simp_all
  from VectorMultiChangesFeed_limit[OF this] b
  show "changesSent e out \<le> n" and "(e = LimitHit) = (changesSent e out = n)"
    by simp_all
qed

theorem limit_honoured_witness:
  "(0::nat) < 1 \<and>
   map (map_option ID)
     (outputCh (snd (mergeLoop exampleBefore exampleMaxSequenceID exampleGetHash exampleDocLayer
                       None 0 (withLimit exampleStart 0))))
     = [Some ''y'', Some ''x''] \<and>
   map (map_option ID)
     (outputCh (snd (mergeLoop exampleBefore exampleMaxSequenceID exampleGetHash exampleDocLayer
                       None 0 (withLimit exampleStart 1))))
     = [Some ''y''] \<and>
   fst (mergeLoop exampleBefore exampleMaxSequenceID exampleGetHash exampleDocLayer
          None 0 (withLimit exampleStart 1)) = LimitReached \<and>
   Limit (options (snd (mergeLoop exampleBefore exampleMaxSequenceID exampleGetHash exampleDocLayer
          None 0 (withLimit exampleStart 1)))) = 0 \<and>
   Limit (plainOptions\<lparr>Limit := 1\<rparr>) = 1 \<and>
   map_option (\<lambda>(e, out). (e, map (map_option ID) out))
     (fst (VectorMultiChangesFeed exampleExternals None None [busyIteration] exampleStore
             {''A'', ''B''} (plainOptions\<lparr>Limit := 1\<rparr>)))
     = Some (LimitHit, [Some ''y'']) \<and>
   map_option (\<lambda>(e, out). (e, map (map_option ID) out))
     (fst (VectorMultiChangesFeed exampleExternals None None [busyIteration] exampleStore
             {''A'', ''B''} plainOptions))
     = Some (Finished, [Some ''y'', Some ''x''])"
proof -
  let ?run = "\<lambda>k. mergeLoop exampleBefore exampleMaxSequenceID exampleGetHash exampleDocLayer
                       None 0 (withLimit exampleStart k)"
  have 0: "map (map_option ID) (outputCh (snd (?run 0))) = [Some ''y'', Some ''x'']"
    by code_simp
  have 1: "map (map_option ID) (outputCh (snd (?run 1))) = [Some ''y'']"
    by code_simp
  have len: "length (sentBy exampleStart (snd (?run 0))) = 2"
    by code_simp
  have len1: "length (sentBy exampleStart (snd (?run 1))) = 1"
    by code_simp
  have w1: "map_option (\<lambda>(e, out). (e, map (map_option ID) out))
     (fst (VectorMultiChangesFeed exampleExternals None None [busyIteration] exampleStore
             {''A'', ''B''} (plainOptions\<lparr>Limit := 1\<rparr>)))
     = Some (LimitHit, [Some ''y''])"
    by code_simp
  have w0: "map_option (\<lambda>(e, out). (e, map (map_option ID) out))
     (fst (VectorMultiChangesFeed exampleExternals None None [busyIteration] exampleStore
             {''A'', ''B''} plainOptions))
     = Some (Finished, [Some ''y'', Some ''x''])"
    by code_simp
  have l: "Limit (plainOptions\<lparr>Limit := 1\<rparr>) = 1" by simp
  from limit_honoured[OF zero_less_one,
         where before = exampleBefore and maxSeq = exampleMaxSequenceID and hash = exampleGetHash
           and doc = exampleDocLayer and terminator = None and cc = 0 and st = exampleStart
           and ?ex0.0 = "fst (?run 0)" and ?s0.0 = "snd (?run 0)"
           and exn = "fst (?run 1)" and sn = "snd (?run 1)"]
       len len1
  have "fst (?run 1) = LimitReached" "Limit (options (snd (?run 1))) = 0"
    by simp_all
  with 0 1 l w1 w0 show ?thesis by simp
qed

subsection \<open>Errors of the change cache\<close>

lemma vectorChangesFeed_error:
  "cache channel opts = Inl err \<Longrightarrow> vectorChangesFeed cache VSB h term channel opts = Inl err"
  by (simp add: vectorChangesFeed_def)

text \<open>
  C5, as amended. The entry point always returns the output stream with a \<^verbatim>\<open>nil\<close> error.
  An error of \<^verbatim>\<open>changeCache.GetChanges\<close> is returned by \<^verbatim>\<open>vectorChangesFeed\<close>; the loop that
  starts the feeds stops at it; and the producer then returns, so that the stream is closed
  after what had been sent before, without an error entry.
\<close>

theorem feed_error_closes_stream:
  "snd (VectorMultiChangesFeed ext terminator user envs h chans opts) = None \<and>
   (GetChanges env name opts1 = Inl err \<longrightarrow>
      vectorChangesFeed (GetChanges env) VSB h1 tmn name opts1 = Inl err) \<and>
   (chanOptsSince h2 (Since opts2) userVbNo added name g = Inr (since, h3) \<and>
    vectorChangesFeed (GetChanges env) (VbucketSequenceBefore ext) h3 (feedTerminator env name)
        name (opts2\<lparr>Since := since\<rparr>) = Inl err \<longrightarrow>
      startFeeds ext env opts2 userVbNo added ((name, g) # rest) h2 feeds = Inl (FeedError err)) \<and>
   (startFeeds ext env (options_o st) userVbNo (addedChannels st) (channelsSince env chans)
        (store_o st) [] = Inl stopped \<longrightarrow>
      outerLoop ext terminator chans userVbNo waiter cc (env # envs1) st = Some (stopped, output_o st))"
  by (simp add: VectorMultiChangesFeed_def Let_def vectorChangesFeed_error)

theorem feed_error_witness:
  "GetChanges failingIteration ''A'' plainOptions = Inl (CacheError ''index bucket unavailable'') \<and>
   startFeeds exampleExternals failingIteration plainOptions 0 None
       (channelsSince failingIteration {''A''}) exampleStore []
     = Inl (FeedError (CacheError ''index bucket unavailable'')) \<and>
   outerLoop exampleExternals None {''A''} 0 False 2 [failingIteration]
       \<lparr>store_o = exampleStore, options_o = plainOptions, output_o = [], userChangeCount = 0,
        addedChannels = None\<rparr>
     = Some (FeedError (CacheError ''index bucket unavailable''), [])"
proof -
  have 1: "GetChanges failingIteration ''A'' plainOptions = Inl (CacheError ''index bucket unavailable'')"
    by (simp add: failingIteration_def)
  have "(case startFeeds exampleExternals failingIteration plainOptions 0 None
               (channelsSince failingIteration {''A''}) exampleStore [] of
           Inl stopped \<Rightarrow> stopped = FeedError (CacheError ''index bucket unavailable'')
         | Inr started \<Rightarrow> False)"
    by code_simp
  then have 2: "startFeeds exampleExternals failingIteration plainOptions 0 None
       (channelsSince failingIteration {''A''}) exampleStore []
     = Inl (FeedError (CacheError ''index bucket unavailable''))"
    by (simp split: sum.splits)
  from feed_error_closes_stream[where env = failingIteration and ext = exampleExternals
         and st = "\<lparr>store_o = exampleStore, options_o = plainOptions, output_o = [],
                    userChangeCount = 0, addedChannels = None\<rparr>"
         and userVbNo = 0 and chans = "{''A''}"
         and stopped = "FeedError (CacheError ''index bucket unavailable'')"
         and terminator = None and waiter = False and cc = 2 and ?envs1.0 = "[]"] 2
  have "outerLoop exampleExternals None {''A''} 0 False 2 [failingIteration]
       \<lparr>store_o = exampleStore, options_o = plainOptions, output_o = [], userChangeCount = 0,
        addedChannels = None\<rparr>
     = Some (FeedError (CacheError ''index bucket unavailable''), [])"
    by simp
  with 1 2 show ?thesis by simp
qed

text \<open>
  C5 as stated fails: here opening the feed of channel A fails, and the entry point returns
  a \<^verbatim>\<open>nil\<close> error and the stream, which the producer closes empty.
\<close>

theorem feed_error_not_returned:
  "vectorChangesFeed (GetChanges failingIteration) exampleVSB exampleStore None ''A'' plainOptions
     = Inl (CacheError ''index bucket unavailable'') \<and>
   VectorMultiChangesFeed exampleExternals None None [failingIteration] exampleStore {''A''}
       plainOptions
     = (Some (FeedError (CacheError ''index bucket unavailable''), []), None)"
  by code_simp

subsection \<open>The terminator\<close>

text \<open>
  C6. The send of the \<^verbatim>\<open>nil\<close> that announces a wait is not a \<^verbatim>\<open>select\<close>. In wait mode
  with nothing to send the producer sends it whatever the \<^verbatim>\<open>select\<close>s would do, also when
  they would take the terminator case from the first send on, and it finds the terminator
  only after the wait.
\<close>

theorem sentinel_sent_after_terminator:
  "VectorMultiChangesFeed exampleExternals terminator None [idleIteration] exampleStore {''A''}
       (plainOptions\<lparr>Wait := True\<rparr>)
     = (Some (TerminatorFired, [None]), None)"
  by (simp add: VectorMultiChangesFeed_def plainOptions_def getChangesClock_def alloc_def
        exampleStore_def idleIteration_def chanOptsSince_def vbAddedAt_of_def isNewChannel_def
        backfillInProgress_def GetSequence_def Copy_def vectorChangesFeed_def exampleExternals_def
        mergeStep_def startMerge_def Let_def)

end
